theory Spec2Isabelle
  imports Complex_Main
begin

section \<open>Errors and outcomes\<close>

text \<open>
  The Python exceptions the modelled code can raise. \<open>StrictAddError\<close> is the
  \<^verbatim>\<open>Exception('Trying to add existing labels in strict mode.')\<close> of
  \<^verbatim>\<open>TorchVectorIndex.add\<close>. A method that mutates its object returns the object as the
  call leaves it together with the exception it raised, if any: an exception raised
  half-way leaves the earlier assignments in place.
\<close>

datatype error =
    IndexError | ValueError | KeyError | TypeError | ZeroDivisionError
  | AssertionError | RuntimeError | StrictAddError

type_synonym 's outcome = "error option \<times> 's"

section \<open>Single-precision floating point\<close>

text \<open>
  The ages of the history database are a \<^verbatim>\<open>float32\<close> tensor (\<^verbatim>\<open>-torch.ones(maxlen)\<close>),
  and so are the decay weights and the weighted similarities computed from them. A
  \<^verbatim>\<open>float32\<close> value is modelled as the real number it denotes, and the result of a
  \<^verbatim>\<open>float32\<close> operation as \<open>f32\<close> of the exact result: the nearest \<^verbatim>\<open>float32\<close>,
  a tie going to the even significand (IEEE 754 binary32, 24 significant bits, smallest
  exponent \<open>-126\<close>, subnormal numbers included). \<open>rne\<close> rounds a real to the nearest
  integer, a tie to the even one; \<open>f32_ulp x\<close> is the distance between neighbouring
  \<^verbatim>\<open>float32\<close> values around \<open>x\<close>. Infinities and \<^verbatim>\<open>NaN\<close> are not modelled: results
  of magnitude \<open>2^128\<close> and more do not arise from the inputs that the theorems admit.
\<close>

definition rne :: "real \<Rightarrow> int" where
  "rne r = (let f = \<lfloor>r\<rfloor> in
      if r - of_int f < 1 / 2 then f
      else if 1 / 2 < r - of_int f then f + 1
      else if even f then f else f + 1)"

definition f32_exponent :: "real \<Rightarrow> int" where
  "f32_exponent x = max (- 126) \<lfloor>log 2 \<bar>x\<bar>\<rfloor>"

definition f32_ulp :: "real \<Rightarrow> real" where
  "f32_ulp x = 2 powr of_int (f32_exponent x - 23)"

definition f32 :: "real \<Rightarrow> real" where
  "f32 x = of_int (rne (x / f32_ulp x)) * f32_ulp x"

section \<open>agent.py: slices and the ring buffer\<close>

text \<open>Python's \<^verbatim>\<open>list(range(start, stop, step))\<close>.\<close>

definition py_range :: "int \<Rightarrow> int \<Rightarrow> int \<Rightarrow> error + int list" where
  "py_range start stop step =
     (if step = 0 then Inl ValueError
      else if 0 < step then
        Inr (map (\<lambda>k. start + int k * step) [0 ..< nat ((stop - start + step - 1) div step)])
      else
        Inr (map (\<lambda>k. start + int k * step) [0 ..< nat ((start - stop - step - 1) div (- step))]))"

text \<open>A Python \<^verbatim>\<open>slice(start, stop, step)\<close>; \<open>None\<close> is an omitted bound.\<close>

datatype slice = Slice "int option" "int option" "int option"

text \<open>
  \<^verbatim>\<open>slice_to_indices(slc, size)\<close>. The source computes the clamped \<^verbatim>\<open>start\<close> and
  \<^verbatim>\<open>end\<close> and then returns \<^verbatim>\<open>list(range(start, stop, step))\<close>.
\<close>

definition slice_to_indices :: "slice \<Rightarrow> int \<Rightarrow> error + int list" where
  "slice_to_indices slc sz =
     (case slc of Slice slc_start slc_stop slc_step \<Rightarrow>
        let start = (case slc_start of Some s \<Rightarrow> s | None \<Rightarrow> 0);
            stop = (case slc_stop of Some s \<Rightarrow> s | None \<Rightarrow> sz);
            step = (case slc_step of Some s \<Rightarrow> s | None \<Rightarrow> 1);
            start = (if start < 0 then start + sz else start);
            end' = (if stop < 0 then stop + sz else stop);
            start = max 0 start;
            end' = min sz end'
        in py_range start stop step)"

text \<open>
  The class \<^verbatim>\<open>FiniteList\<close>: \<^verbatim>\<open>self.max\<close>, \<^verbatim>\<open>self.pos\<close>, \<^verbatim>\<open>self.data\<close>. Its
  methods \<^verbatim>\<open>values\<close> and \<^verbatim>\<open>append\<close> carry the suffix \<open>_fl\<close>, \<^verbatim>\<open>__len__\<close> is
  \<open>len\<close>, and \<^verbatim>\<open>__getitem__\<close> is one function for each kind of index.
\<close>

record 'a FiniteList =
  fl_max :: nat
  fl_pos :: nat
  fl_data :: "'a list"

definition FiniteList_init :: "nat \<Rightarrow> 'a FiniteList" where
  "FiniteList_init maxlen = \<lparr>fl_max = maxlen, fl_pos = 0, fl_data = []\<rparr>"

definition len :: "'a FiniteList \<Rightarrow> nat" where
  "len fl = length (fl_data fl)"

definition empty :: "'a FiniteList \<Rightarrow> bool" where
  "empty fl = (len fl = 0)"

definition full :: "'a FiniteList \<Rightarrow> bool" where
  "full fl = (len fl = fl_max fl)"

text \<open>\<^verbatim>\<open>__getitem__\<close> on one integer index: the last four lines of the method.\<close>

definition getitem_int :: "'a FiniteList \<Rightarrow> int \<Rightarrow> error + 'a" where
  "getitem_int fl idx =
     (let sz = int (len fl) in
      if idx \<ge> sz \<or> idx < - sz then Inl IndexError
      else let pos = (int (fl_pos fl) - 1 - idx) mod sz in Inr (fl_data fl ! nat pos))"

text \<open>\<^verbatim>\<open>[self[i] for i in idx]\<close>: the first failing element raises.\<close>

fun getitem_list :: "'a FiniteList \<Rightarrow> int list \<Rightarrow> error + 'a list" where
  "getitem_list fl [] = Inr []"
| "getitem_list fl (i # idx) =
     (case getitem_int fl i of
        Inl e \<Rightarrow> Inl e
      | Inr x \<Rightarrow> (case getitem_list fl idx of Inl e \<Rightarrow> Inl e | Inr xs \<Rightarrow> Inr (x # xs)))"

text \<open>\<^verbatim>\<open>__getitem__\<close> on a slice: the slice becomes a list of indices first.\<close>

definition getitem_slice :: "'a FiniteList \<Rightarrow> slice \<Rightarrow> error + 'a list" where
  "getitem_slice fl slc =
     (case slice_to_indices slc (int (len fl)) of
        Inl e \<Rightarrow> Inl e
      | Inr idx \<Rightarrow> getitem_list fl idx)"

text \<open>Python's \<^verbatim>\<open>xs[a::-1]\<close> and \<^verbatim>\<open>xs[:b:-1]\<close> on a list.\<close>

definition slice_down_from :: "'a list \<Rightarrow> int \<Rightarrow> 'a list" where
  "slice_down_from xs a =
     (let n = int (length xs);
          a = (if a < 0 then a + n else a);
          a = (if a < 0 then - 1 else if a \<ge> n then n - 1 else a)
      in rev (take (nat (a + 1)) xs))"

definition slice_down_to :: "'a list \<Rightarrow> int \<Rightarrow> 'a list" where
  "slice_down_to xs b =
     (let n = int (length xs);
          b = (if b < 0 then b + n else b);
          b = (if b < 0 then - 1 else if b \<ge> n then n - 1 else b)
      in rev (drop (nat (b + 1)) xs))"

definition values_fl :: "'a FiniteList \<Rightarrow> 'a list" where
  "values_fl fl =
     (if empty fl then []
      else if full fl then
        slice_down_from (fl_data fl) (int (fl_pos fl) - 1) @ slice_down_to (fl_data fl) (int (fl_pos fl))
      else slice_down_from (fl_data fl) (int (fl_pos fl) - 1))"

text \<open>
  \<^verbatim>\<open>append\<close>: the item is appended or written at \<^verbatim>\<open>pos\<close> (an \<^verbatim>\<open>IndexError\<close> when
  \<^verbatim>\<open>pos\<close> is not a position of \<^verbatim>\<open>data\<close>), then \<^verbatim>\<open>pos\<close> moves on modulo \<^verbatim>\<open>max\<close>.
\<close>

definition append_fl :: "'a FiniteList \<Rightarrow> 'a \<Rightarrow> 'a FiniteList outcome" where
  "append_fl fl item =
     (if len fl < fl_max fl then
        (let fl1 = fl\<lparr>fl_data := fl_data fl @ [item]\<rparr> in
         (None, fl1\<lparr>fl_pos := (fl_pos fl1 + 1) mod fl_max fl1\<rparr>))
      else if fl_pos fl < len fl then
        (let fl1 = fl\<lparr>fl_data := (fl_data fl)[fl_pos fl := item]\<rparr> in
         if fl_max fl1 = 0 then (Some ZeroDivisionError, fl1)
         else (None, fl1\<lparr>fl_pos := (fl_pos fl1 + 1) mod fl_max fl1\<rparr>))
      else (Some IndexError, fl))"

text \<open>Appending a sequence of items, stopping at the first exception.\<close>

fun extend_fl :: "'a FiniteList \<Rightarrow> 'a list \<Rightarrow> 'a FiniteList outcome" where
  "extend_fl fl [] = (None, fl)"
| "extend_fl fl (x # xs) =
     (case append_fl fl x of
        (Some e, fl1) \<Rightarrow> (Some e, fl1)
      | (None, fl1) \<Rightarrow> extend_fl fl1 xs)"

section \<open>utils.py and index.py: the flat vector index\<close>

text \<open>
  \<^verbatim>\<open>next_power_of_2(x) = pow(2, round(ceil(log2(x))))\<close>. \<^verbatim>\<open>math.log2\<close> raises
  \<^verbatim>\<open>ValueError\<close> at \<open>x \<le> 0\<close>; \<^verbatim>\<open>math.ceil\<close> returns an integer, which
  \<^verbatim>\<open>round\<close> leaves as it is. The double-precision \<^verbatim>\<open>log2\<close> is modelled as the
  real logarithm.
\<close>

definition next_power_of_2 :: "int \<Rightarrow> error + nat" where
  "next_power_of_2 x =
     (if x \<le> 0 then Inl ValueError
      else Inr (2 ^ nat (round (of_int \<lceil>log 2 (of_int x)\<rceil> :: real))))"

text \<open>
  \<^verbatim>\<open>resize_alloc(a, size)\<close>, that is \<^verbatim>\<open>a.resize_(size, ...)\<close>: the leading rows are kept,
  new rows are uninitialised storage, modelled by the parameter \<open>junk\<close>.
\<close>

definition resize_alloc :: "'a \<Rightarrow> 'a list \<Rightarrow> nat \<Rightarrow> 'a list" where
  "resize_alloc junk a sz = take sz a @ replicate (sz - length a) junk"

type_synonym vec = "real list"

text \<open>A two-dimensional tensor: \<^verbatim>\<open>vecs.shape = (length rows, ncols)\<close>.\<close>

record tensor2 =
  ncols :: nat
  rows :: "vec list"

text \<open>
  Tensor indexing. \<^verbatim>\<open>a[idxs]\<close> reads the listed rows, \<^verbatim>\<open>a[idxs] = vs\<close> writes
  them in order, \<^verbatim>\<open>a[n0:n1] = vs\<close> writes a slice (clipped to the tensor); a position out
  of range is an \<^verbatim>\<open>IndexError\<close>, a value of the wrong shape a \<^verbatim>\<open>RuntimeError\<close> (a
  single row is broadcast).
\<close>

definition index_get :: "'a list \<Rightarrow> nat list \<Rightarrow> error + 'a list" where
  "index_get a idxs =
     (if list_ex (\<lambda>i. i \<ge> length a) idxs then Inl IndexError else Inr (map (\<lambda>i. a ! i) idxs))"

definition index_put :: "'a list \<Rightarrow> nat list \<Rightarrow> 'a list \<Rightarrow> error + 'a list" where
  "index_put a idxs vs =
     (if list_ex (\<lambda>i. i \<ge> length a) idxs then Inl IndexError
      else if length vs = length idxs then Inr (fold (\<lambda>(i, v) a. a[i := v]) (zip idxs vs) a)
      else if length vs = 1 then Inr (fold (\<lambda>i a. a[i := hd vs]) idxs a)
      else Inl RuntimeError)"

definition slice_put :: "'a list \<Rightarrow> nat \<Rightarrow> nat \<Rightarrow> 'a list \<Rightarrow> error + 'a list" where
  "slice_put a n0 n1 vs = index_put a [min n0 (length a) ..< min n1 (length a)] vs"

text \<open>\<^verbatim>\<open>list.index(x)\<close>: the first position of \<open>x\<close>, a \<^verbatim>\<open>ValueError\<close> when absent.\<close>

fun list_index :: "'a list \<Rightarrow> 'a \<Rightarrow> error + nat" where
  "list_index [] x = Inl ValueError"
| "list_index (y # ys) x =
     (if y = x then Inr 0
      else case list_index ys x of Inl e \<Rightarrow> Inl e | Inr i \<Rightarrow> Inr (Suc i))"

text \<open>\<^verbatim>\<open>list.pop(idx)\<close> at a valid position.\<close>

definition list_pop :: "'a list \<Rightarrow> nat \<Rightarrow> 'a list" where
  "list_pop xs idx = take idx xs @ drop (Suc idx) xs"

text \<open>
  index.py, class \<^verbatim>\<open>TorchVectorIndex\<close>: \<^verbatim>\<open>max_size\<close>, \<^verbatim>\<open>dims\<close>, \<^verbatim>\<open>labels\<close>
  (a plain list), \<^verbatim>\<open>values\<close> and \<^verbatim>\<open>groups\<close> (tensors of \<^verbatim>\<open>max_size\<close> rows). Its
  functions carry the prefix \<open>ix_\<close>; those of ziggy/index.py below carry \<open>zi_\<close>.
\<close>

record 'l ix_index =
  ix_max_size :: nat
  ix_dims :: nat
  ix_labels :: "'l list"
  ix_values :: "vec list"
  ix_groups :: "int list"

text \<open>
  \<^verbatim>\<open>__init__(dims, max_size)\<close> without \<^verbatim>\<open>load\<close>:
  \<^verbatim>\<open>assert(log2(max_size) % 1 == 0)\<close>, then empty labels and uninitialised tensors.
\<close>

definition ix_init :: "nat \<Rightarrow> nat \<Rightarrow> error + 'l ix_index" where
  "ix_init dims max_size =
     (if max_size = 0 then Inl ValueError
      else if frac (log 2 (real max_size)) \<noteq> 0 then Inl AssertionError
      else Inr \<lparr>ix_max_size = max_size, ix_dims = dims, ix_labels = [],
               ix_values = replicate max_size (replicate dims 0),
               ix_groups = replicate max_size 0\<rparr>)"

definition ix_size :: "'l ix_index \<Rightarrow> nat" where
  "ix_size idx = length (ix_labels idx)"

definition ix_expand :: "'l ix_index \<Rightarrow> nat \<Rightarrow> 'l ix_index outcome" where
  "ix_expand idx min_size =
     (case next_power_of_2 (int min_size) of
        Inl e \<Rightarrow> (Some e, idx)
      | Inr sz \<Rightarrow>
          if sz > ix_max_size idx then
            (None, idx\<lparr>ix_max_size := sz,
                       ix_values := resize_alloc (replicate (ix_dims idx) 0) (ix_values idx) sz,
                       ix_groups := resize_alloc 0 (ix_groups idx) sz\<rparr>)
          else (None, idx))"

definition ix_compress :: "'l ix_index \<Rightarrow> int \<Rightarrow> 'l ix_index outcome" where
  "ix_compress idx min_size =
     (case next_power_of_2 (int (ix_size idx)) of
        Inl e \<Rightarrow> (Some e, idx)
      | Inr size0 \<Rightarrow>
          let sz = max min_size (int size0) in
          if sz < int (ix_max_size idx) then
            (None, idx\<lparr>ix_max_size := nat sz,
                       ix_values := resize_alloc (replicate (ix_dims idx) 0) (ix_values idx) (nat sz),
                       ix_groups := resize_alloc 0 (ix_groups idx) (nat sz)\<rparr>)
          else (None, idx))"

text \<open>
  \<^verbatim>\<open>[(i, labels.index(x)) for i, x in enumerate(labs) if x in exist]\<close>, unzipped; the
  first label that \<^verbatim>\<open>index\<close> does not find raises.
\<close>

fun exist_locs :: "'l list \<Rightarrow> 'l set \<Rightarrow> nat \<Rightarrow> 'l list \<Rightarrow> error + (nat list \<times> nat list)" where
  "exist_locs labels exist i [] = Inr ([], [])"
| "exist_locs labels exist i (x # labs) =
     (if x \<in> exist then
        (case list_index labels x of
           Inl e \<Rightarrow> Inl e
         | Inr j \<Rightarrow> (case exist_locs labels exist (Suc i) labs of
                       Inl e \<Rightarrow> Inl e
                     | Inr (elocs, idxs) \<Rightarrow> Inr (i # elocs, j # idxs)))
      else exist_locs labels exist (Suc i) labs)"

text \<open>\<^verbatim>\<open>[(i, x) for i, x in enumerate(labs) if x in novel]\<close>, unzipped.\<close>

fun novel_locs :: "'l set \<Rightarrow> nat \<Rightarrow> 'l list \<Rightarrow> nat list \<times> 'l list" where
  "novel_locs novel i [] = ([], [])"
| "novel_locs novel i (x # labs) =
     (let (xlocs, xlabs) = novel_locs novel (Suc i) labs in
      if x \<in> novel then (i # xlocs, x # xlabs) else (xlocs, xlabs))"

text \<open>
  \<^verbatim>\<open>add(labs, vecs, groups=-1, strict=False)\<close>. \<open>groups\<close> is one integer
  (\<open>Inl\<close>) or a tensor of group numbers (\<open>Inr\<close>).
\<close>

definition ix_update_exist ::
  "'l ix_index \<Rightarrow> 'l list \<Rightarrow> tensor2 \<Rightarrow> int list \<Rightarrow> 'l set \<Rightarrow> 'l ix_index outcome" where
  "ix_update_exist idx labs vecs grps exist =
     (case exist_locs (ix_labels idx) exist 0 labs of
        Inl e \<Rightarrow> (Some e, idx)
      | Inr (elocs, idxs) \<Rightarrow>
     (case index_get (rows vecs) elocs of
        Inl e \<Rightarrow> (Some e, idx)
      | Inr vs \<Rightarrow>
     (case index_put (ix_values idx) idxs vs of
        Inl e \<Rightarrow> (Some e, idx)
      | Inr values1 \<Rightarrow>
     (let idx1 = idx\<lparr>ix_values := values1\<rparr> in
      case index_get grps elocs of
        Inl e \<Rightarrow> (Some e, idx1)
      | Inr gs \<Rightarrow>
     (case index_put (ix_groups idx1) idxs gs of
        Inl e \<Rightarrow> (Some e, idx1)
      | Inr groups1 \<Rightarrow> (None, idx1\<lparr>ix_groups := groups1\<rparr>))))))"

definition ix_append_novel ::
  "'l ix_index \<Rightarrow> 'l list \<Rightarrow> tensor2 \<Rightarrow> int list \<Rightarrow> 'l set \<Rightarrow> 'l ix_index outcome" where
  "ix_append_novel idx labs vecs grps novel =
     (let (xlocs, xlabs) = novel_locs novel 0 labs;
          nlabels0 = ix_size idx;
          nlabels1 = nlabels0 + card novel
      in
      case ix_expand idx nlabels1 of
        (Some e, idx1) \<Rightarrow> (Some e, idx1)
      | (None, idx1) \<Rightarrow>
     (let idx2 = idx1\<lparr>ix_labels := ix_labels idx1 @ xlabs\<rparr> in
      case index_get (rows vecs) xlocs of
        Inl e \<Rightarrow> (Some e, idx2)
      | Inr vs \<Rightarrow>
     (case slice_put (ix_values idx2) nlabels0 nlabels1 vs of
        Inl e \<Rightarrow> (Some e, idx2)
      | Inr values1 \<Rightarrow>
     (let idx3 = idx2\<lparr>ix_values := values1\<rparr> in
      case index_get grps xlocs of
        Inl e \<Rightarrow> (Some e, idx3)
      | Inr gs \<Rightarrow>
     (case slice_put (ix_groups idx3) nlabels0 nlabels1 gs of
        Inl e \<Rightarrow> (Some e, idx3)
      | Inr groups1 \<Rightarrow> (None, idx3\<lparr>ix_groups := groups1\<rparr>))))))"

definition ix_add ::
  "'l ix_index \<Rightarrow> 'l list \<Rightarrow> tensor2 \<Rightarrow> int + int list \<Rightarrow> bool \<Rightarrow> 'l ix_index outcome" where
  "ix_add idx labs vecs groups strict =
     (let nlabs = length labs; nv = length (rows vecs); dv = ncols vecs in
      if nv \<noteq> nlabs then (Some AssertionError, idx)
      else if dv \<noteq> ix_dims idx then (Some AssertionError, idx)
      else
        let slabs = set labs;
            exist = slabs \<inter> set (ix_labels idx);
            novel = slabs - exist
        in
        if strict \<and> exist \<noteq> {} then (Some StrictAddError, idx)
        else
          let grps = (case groups of Inl g \<Rightarrow> replicate nlabs g | Inr gs \<Rightarrow> gs) in
          case (if exist \<noteq> {} then ix_update_exist idx labs vecs grps exist else (None, idx)) of
            (Some e, idx1) \<Rightarrow> (Some e, idx1)
          | (None, idx1) \<Rightarrow>
              if novel \<noteq> {} then ix_append_novel idx1 labs vecs grps novel else (None, idx1))"

text \<open>
  \<^verbatim>\<open>remove(labs)\<close>. The loop runs over \<^verbatim>\<open>set(labs).intersection(self.labels)\<close>, whose
  iteration order Python leaves open; the model takes the labels in the order of
  \<open>labs\<close>. After \<^verbatim>\<open>labels.pop(idx)\<close> the row \<^verbatim>\<open>values[self.size(),:]\<close> is copied to
  \<^verbatim>\<open>idx\<close>; \<^verbatim>\<open>self.groups[self.size(),:]\<close> then indexes the one-dimensional
  \<^verbatim>\<open>groups\<close> tensor with two indices, which raises \<^verbatim>\<open>IndexError\<close>, so the first
  pass of the loop is the only one.
\<close>

definition ix_remove :: "'l ix_index \<Rightarrow> 'l list \<Rightarrow> 'l ix_index outcome" where
  "ix_remove idx labs =
     (case filter (\<lambda>l. l \<in> set (ix_labels idx)) labs of
        [] \<Rightarrow> (None, idx)
      | lab # _ \<Rightarrow>
     (case list_index (ix_labels idx) lab of
        Inl e \<Rightarrow> (Some e, idx)
      | Inr i \<Rightarrow>
     (let idx1 = idx\<lparr>ix_labels := list_pop (ix_labels idx) i\<rparr> in
      case index_get (ix_values idx1) [ix_size idx1] of
        Inl e \<Rightarrow> (Some e, idx1)
      | Inr vs \<Rightarrow>
     (case index_put (ix_values idx1) [i] vs of
        Inl e \<Rightarrow> (Some e, idx1)
      | Inr values1 \<Rightarrow> (Some IndexError, idx1\<lparr>ix_values := values1\<rparr>)))))"

definition ix_clear :: "'l ix_index \<Rightarrow> 'l ix_index outcome" where
  "ix_clear idx = (None, idx\<lparr>ix_labels := []\<rparr>)"

text \<open>The mutating calls other than \<^verbatim>\<open>compress\<close>, and a caller that issues a
  sequence of them, going on after an exception.\<close>

datatype 'l ix_op =
    IxAdd "'l list" tensor2 "int + int list" bool
  | IxRemove "'l list"
  | IxClear

fun ix_apply :: "'l ix_index \<Rightarrow> 'l ix_op \<Rightarrow> 'l ix_index outcome" where
  "ix_apply idx (IxAdd labs vecs groups strict) = ix_add idx labs vecs groups strict"
| "ix_apply idx (IxRemove labs) = ix_remove idx labs"
| "ix_apply idx IxClear = ix_clear idx"

fun ix_run :: "'l ix_index \<Rightarrow> 'l ix_op list \<Rightarrow> 'l ix_index" where
  "ix_run idx [] = idx"
| "ix_run idx (c # cs) = ix_run (snd (ix_apply idx c)) cs"

text \<open>
  A sequence of calls in which no \<^verbatim>\<open>add\<close> lists a label that is new to the index more
  than once. (\<^verbatim>\<open>add\<close> sizes the index for \<^verbatim>\<open>len(novel)\<close> labels, \<^verbatim>\<open>novel\<close> being a
  set, and extends \<^verbatim>\<open>labels\<close> by the list \<^verbatim>\<open>xlabs\<close>, in which a repeated label
  occurs as often as it was given.)
\<close>

fun ix_calls_ok :: "'l ix_index \<Rightarrow> 'l ix_op list \<Rightarrow> bool" where
  "ix_calls_ok idx [] = True"
| "ix_calls_ok idx (c # cs) =
     ((case c of
         IxAdd labs vecs groups strict \<Rightarrow> distinct (filter (\<lambda>x. x \<notin> set (ix_labels idx)) labs)
       | IxRemove labs \<Rightarrow> True
       | IxClear \<Rightarrow> True)
      \<and> ix_calls_ok (snd (ix_apply idx c)) cs)"

text \<open>The shape of a flat index that its methods maintain: the capacity is a power of two
  and both tensors have that many rows.\<close>

definition ix_wf :: "'l ix_index \<Rightarrow> bool" where
  "ix_wf idx \<longleftrightarrow>
     (\<exists>k. ix_max_size idx = 2 ^ k) \<and>
     length (ix_values idx) = ix_max_size idx \<and>
     length (ix_groups idx) = ix_max_size idx"


section \<open>utils.py and ziggy/index.py: the grouped vector index\<close>

text \<open>
  \<^verbatim>\<open>IndexDict\<close>, a \<^verbatim>\<open>dict\<close> from group keys to consecutive numbers, as an association
  list in insertion order. Its methods are wrapped by \<^verbatim>\<open>allow_list\<close>: they take one
  key or a list of keys.
\<close>

datatype 'g keys = One 'g | Many "'g list"

fun keys_list :: "'g keys \<Rightarrow> 'g list" where
  "keys_list (One g) = [g]"
| "keys_list (Many gs) = gs"

text \<open>
  \<^verbatim>\<open>IndexDict.add\<close>: the keys not yet present get the numbers \<^verbatim>\<open>len(self)\<close> onwards.
  The source runs over a \<^verbatim>\<open>set\<close>, whose order Python leaves open; the model fixes the
  order of \<open>remdups\<close>.
\<close>

definition indexdict_add :: "('g \<times> nat) list \<Rightarrow> 'g keys \<Rightarrow> ('g \<times> nat) list" where
  "indexdict_add d groups =
     (let new = remdups (filter (\<lambda>k. k \<notin> fst ` set d) (keys_list groups));
          n0 = length d; n1 = length new
      in d @ zip new [n0 ..< n0 + n1])"

text \<open>\<^verbatim>\<open>IndexDict.idx\<close>: \<^verbatim>\<open>[self[k] for k in keys]\<close>, a \<^verbatim>\<open>KeyError\<close> at an unknown key.\<close>

fun indexdict_idx :: "('g \<times> nat) list \<Rightarrow> 'g list \<Rightarrow> error + nat list" where
  "indexdict_idx d [] = Inr []"
| "indexdict_idx d (k # ks) =
     (case map_of d k of
        None \<Rightarrow> Inl KeyError
      | Some i \<Rightarrow> (case indexdict_idx d ks of Inl e \<Rightarrow> Inl e | Inr ids \<Rightarrow> Inr (i # ids)))"

text \<open>
  Modelled from the spec: the module \<^verbatim>\<open>quant\<close> with the class \<^verbatim>\<open>QuantizedEmbedding\<close>
  is not part of the sources. The spec gives its contract (write, read, resize,
  similarity aligned to a mask, size) and names the similarity a dot product, which is
  also what index.py computes (\<^verbatim>\<open>vecs @ vals.T\<close>). The store is modelled as its
  dimension and its rows, unquantised (the default \<^verbatim>\<open>qspec=Float\<close>); a query of another
  dimension is a \<^verbatim>\<open>RuntimeError\<close>.
\<close>

record QuantizedEmbedding =
  qe_dims :: nat
  qe_raw :: "vec list"

definition qe_init :: "nat \<Rightarrow> nat \<Rightarrow> QuantizedEmbedding" where
  "qe_init sz dims = \<lparr>qe_dims = dims, qe_raw = replicate sz (replicate dims 0)\<rparr>"

definition qe_size :: "QuantizedEmbedding \<Rightarrow> nat" where
  "qe_size q = length (qe_raw q)"

definition qe_resize :: "QuantizedEmbedding \<Rightarrow> nat \<Rightarrow> QuantizedEmbedding" where
  "qe_resize q sz = q\<lparr>qe_raw := resize_alloc (replicate (qe_dims q) 0) (qe_raw q) sz\<rparr>"

definition dot :: "vec \<Rightarrow> vec \<Rightarrow> real" where
  "dot u v = sum_list (map2 (*) u v)"

text \<open>\<^verbatim>\<open>similarity(vecs, mask)\<close> for one query row; \<open>slots\<close> is the mask, the list of
  the slots compared.\<close>

definition qe_similarity :: "QuantizedEmbedding \<Rightarrow> vec \<Rightarrow> nat list \<Rightarrow> error + real list" where
  "qe_similarity q v slots =
     (if length v \<noteq> qe_dims q then Inl RuntimeError
      else case index_get (qe_raw q) slots of
             Inl e \<Rightarrow> Inl e
           | Inr vals \<Rightarrow> Inr (map (dot v) vals))"

text \<open>
  ziggy/index.py, class \<^verbatim>\<open>TorchVectorIndex\<close>. \<^verbatim>\<open>labels\<close> is an \<^verbatim>\<open>OrderedSet\<close>, a
  \<^verbatim>\<open>list\<close> subclass that keeps a second copy of its elements in \<^verbatim>\<open>_set\<close>:
  \<^verbatim>\<open>intersection\<close>, \<^verbatim>\<open>isdisjoint\<close> and \<^verbatim>\<open>extend\<close> read \<^verbatim>\<open>_set\<close>, while \<^verbatim>\<open>index\<close>,
  \<^verbatim>\<open>pop\<close>, \<^verbatim>\<open>len\<close> and \<^verbatim>\<open>in\<close> are the list's own.
\<close>

record ('l, 'g) zi_index =
  zi_labels :: "'l list"
  zi_labels_set :: "'l set"
  zi_grpids :: "('g \<times> nat) list"
  zi_values :: QuantizedEmbedding
  zi_groups :: "int list"

definition zi_init :: "nat \<Rightarrow> nat \<Rightarrow> ('l, 'g) zi_index" where
  "zi_init dims sz =
     \<lparr>zi_labels = [], zi_labels_set = {}, zi_grpids = [],
      zi_values = qe_init sz dims, zi_groups = replicate sz 0\<rparr>"

definition zi_size :: "('l, 'g) zi_index \<Rightarrow> nat" where
  "zi_size idx = length (zi_labels idx)"

text \<open>Python's \<^verbatim>\<open>label in index.labels\<close>.\<close>

definition zi_contains :: "('l, 'g) zi_index \<Rightarrow> 'l \<Rightarrow> bool" where
  "zi_contains idx l = (l \<in> set (zi_labels idx))"

definition zi_expand :: "('l, 'g) zi_index \<Rightarrow> nat \<Rightarrow> bool \<Rightarrow> ('l, 'g) zi_index outcome" where
  "zi_expand idx sz power' =
     (case (if power' then next_power_of_2 (int sz) else Inr sz) of
        Inl e \<Rightarrow> (Some e, idx)
      | Inr sz \<Rightarrow>
          if sz > qe_size (zi_values idx) then
            (None, idx\<lparr>zi_values := qe_resize (zi_values idx) sz,
                       zi_groups := resize_alloc 0 (zi_groups idx) sz\<rparr>)
          else (None, idx))"

text \<open>\<^verbatim>\<open>OrderedSet.extend(keys)\<close>.\<close>

definition orderedset_extend :: "('l, 'g) zi_index \<Rightarrow> 'l list \<Rightarrow> ('l, 'g) zi_index outcome" where
  "orderedset_extend idx ks =
     (if zi_labels_set idx \<inter> set ks \<noteq> {} then (Some ValueError, idx)
      else (None, idx\<lparr>zi_labels_set := zi_labels_set idx \<union> set ks,
                      zi_labels := zi_labels idx @ ks\<rparr>))"

text \<open>A list comprehension whose body may raise: the first exception ends it.\<close>

fun map_err :: "('a \<Rightarrow> error + 'b) \<Rightarrow> 'a list \<Rightarrow> error + 'b list" where
  "map_err f [] = Inr []"
| "map_err f (x # xs) =
     (case f x of
        Inl e \<Rightarrow> Inl e
      | Inr y \<Rightarrow> (case map_err f xs of Inl e \<Rightarrow> Inl e | Inr ys \<Rightarrow> Inr (y # ys)))"

text \<open>
  \<^verbatim>\<open>add(labs, vecs, groups=None, strict=False)\<close>, on a list of labels and a
  two-dimensional tensor (a single label with a one-dimensional vector is first
  wrapped into this form). \<open>gids_of\<close> is the tensor \<^verbatim>\<open>gids\<close>.
\<close>

fun gids_of :: "'g keys \<Rightarrow> nat list \<Rightarrow> nat \<Rightarrow> int list" where
  "gids_of (Many gs) gidx nlabs = map int gidx"
| "gids_of (One g) gidx nlabs = replicate nlabs (int (hd gidx))"

definition zi_update_exist ::
  "('l, 'g) zi_index \<Rightarrow> 'l list \<Rightarrow> tensor2 \<Rightarrow> int list \<Rightarrow> 'l set \<Rightarrow> ('l, 'g) zi_index outcome" where
  "zi_update_exist idx labs vecs gids exist =
     (case exist_locs (zi_labels idx) exist 0 labs of
        Inl e \<Rightarrow> (Some e, idx)
      | Inr (elocs, idxs) \<Rightarrow>
     (case index_get (rows vecs) elocs of
        Inl e \<Rightarrow> (Some e, idx)
      | Inr vs \<Rightarrow>
     (case index_put (qe_raw (zi_values idx)) idxs vs of
        Inl e \<Rightarrow> (Some e, idx)
      | Inr raw1 \<Rightarrow>
     (let idx1 = idx\<lparr>zi_values := (zi_values idx)\<lparr>qe_raw := raw1\<rparr>\<rparr> in
      case index_get gids elocs of
        Inl e \<Rightarrow> (Some e, idx1)
      | Inr gs \<Rightarrow>
     (case index_put (zi_groups idx1) idxs gs of
        Inl e \<Rightarrow> (Some e, idx1)
      | Inr groups1 \<Rightarrow> (None, idx1\<lparr>zi_groups := groups1\<rparr>))))))"

definition zi_append_novel ::
  "('l, 'g) zi_index \<Rightarrow> 'l list \<Rightarrow> tensor2 \<Rightarrow> int list \<Rightarrow> 'l set \<Rightarrow> ('l, 'g) zi_index outcome" where
  "zi_append_novel idx labs vecs gids novel =
     (let (xlocs, xlabs) = novel_locs novel 0 labs;
          nlabels0 = zi_size idx;
          nlabels1 = nlabels0 + card novel
      in
      case zi_expand idx nlabels1 True of
        (Some e, idx1) \<Rightarrow> (Some e, idx1)
      | (None, idx1) \<Rightarrow>
     (case orderedset_extend idx1 xlabs of
        (Some e, idx2) \<Rightarrow> (Some e, idx2)
      | (None, idx2) \<Rightarrow>
     (case index_get (rows vecs) xlocs of
        Inl e \<Rightarrow> (Some e, idx2)
      | Inr vs \<Rightarrow>
     (case slice_put (qe_raw (zi_values idx2)) nlabels0 nlabels1 vs of
        Inl e \<Rightarrow> (Some e, idx2)
      | Inr raw1 \<Rightarrow>
     (let idx3 = idx2\<lparr>zi_values := (zi_values idx2)\<lparr>qe_raw := raw1\<rparr>\<rparr> in
      case index_get gids xlocs of
        Inl e \<Rightarrow> (Some e, idx3)
      | Inr gs \<Rightarrow>
     (case slice_put (zi_groups idx3) nlabels0 nlabels1 gs of
        Inl e \<Rightarrow> (Some e, idx3)
      | Inr groups1 \<Rightarrow> (None, idx3\<lparr>zi_groups := groups1\<rparr>)))))))"

definition zi_add ::
  "('l, 'g) zi_index \<Rightarrow> 'l list \<Rightarrow> tensor2 \<Rightarrow> 'g keys \<Rightarrow> bool \<Rightarrow> ('l, 'g) zi_index outcome" where
  "zi_add idx labs vecs groups strict =
     (let nlabs = length labs; nv = length (rows vecs); dv = ncols vecs;
          d0 = qe_dims (zi_values idx)
      in
      if nv \<noteq> nlabs then (Some AssertionError, idx)
      else if dv \<noteq> d0 then (Some AssertionError, idx)
      else
        let slabs = set labs;
            exist = zi_labels_set idx \<inter> slabs;
            novel = slabs - exist
        in
        if strict \<and> exist \<noteq> {} then (Some StrictAddError, idx)
        else
          let idx1 = idx\<lparr>zi_grpids := indexdict_add (zi_grpids idx) groups\<rparr> in
          case indexdict_idx (zi_grpids idx1) (keys_list groups) of
            Inl e \<Rightarrow> (Some e, idx1)
          | Inr gidx \<Rightarrow>
          let gids = gids_of groups gidx nlabs in
          case (if exist \<noteq> {} then zi_update_exist idx1 labs vecs gids exist else (None, idx1)) of
            (Some e, idx2) \<Rightarrow> (Some e, idx2)
          | (None, idx2) \<Rightarrow>
              if novel \<noteq> {} then zi_append_novel idx2 labs vecs gids novel else (None, idx2))"

text \<open>
  \<^verbatim>\<open>remove(labs)\<close>. \<^verbatim>\<open>size\<close> is read once, before the loop. The loop runs over
  \<^verbatim>\<open>self.labels.intersection(labs)\<close>, a set; the model takes its elements in the order
  of \<open>labs\<close>. Each pass pops the label from the list (not from \<^verbatim>\<open>_set\<close>) and copies
  the row and the group at position \<^verbatim>\<open>size\<close> to the freed position.
\<close>

fun zi_remove_loop :: "nat \<Rightarrow> ('l, 'g) zi_index \<Rightarrow> 'l list \<Rightarrow> ('l, 'g) zi_index outcome" where
  "zi_remove_loop sz idx [] = (None, idx)"
| "zi_remove_loop sz idx (lab # labs) =
     (case list_index (zi_labels idx) lab of
        Inl e \<Rightarrow> (Some e, idx)
      | Inr i \<Rightarrow>
     (let idx1 = idx\<lparr>zi_labels := list_pop (zi_labels idx) i\<rparr> in
      case index_get (qe_raw (zi_values idx1)) [sz] of
        Inl e \<Rightarrow> (Some e, idx1)
      | Inr vs \<Rightarrow>
     (case index_put (qe_raw (zi_values idx1)) [i] vs of
        Inl e \<Rightarrow> (Some e, idx1)
      | Inr raw1 \<Rightarrow>
     (let idx2 = idx1\<lparr>zi_values := (zi_values idx1)\<lparr>qe_raw := raw1\<rparr>\<rparr> in
      case index_get (zi_groups idx2) [sz] of
        Inl e \<Rightarrow> (Some e, idx2)
      | Inr gs \<Rightarrow>
     (case index_put (zi_groups idx2) [i] gs of
        Inl e \<Rightarrow> (Some e, idx2)
      | Inr groups1 \<Rightarrow> zi_remove_loop sz (idx2\<lparr>zi_groups := groups1\<rparr>) labs)))))"

definition zi_remove :: "('l, 'g) zi_index \<Rightarrow> 'l list \<Rightarrow> ('l, 'g) zi_index outcome" where
  "zi_remove idx labs =
     (let sz = zi_size idx in
      zi_remove_loop sz idx (remdups (filter (\<lambda>l. l \<in> zi_labels_set idx) labs)))"

text \<open>
  \<^verbatim>\<open>get(labels)\<close>: \<^verbatim>\<open>self.labels.index(l)\<close> raises \<^verbatim>\<open>ValueError\<close> at an absent label
  (so the test for \<^verbatim>\<open>-1\<close> never fires), then the rows are read.
\<close>

definition zi_get :: "('l, 'g) zi_index \<Rightarrow> 'l list \<Rightarrow> error + vec list" where
  "zi_get idx labels =
     (case map_err (list_index (zi_labels idx)) labels of
        Inl e \<Rightarrow> Inl e
      | Inr indices \<Rightarrow> index_get (qe_raw (zi_values idx)) indices)"

text \<open>
  \<^verbatim>\<open>torch.topk\<close> belongs to PyTorch, not to the sources. Its documentation
  promises, for a row \<open>xs\<close> and \<open>0 \<le> k \<le> length xs\<close>, the \<open>k\<close> largest entries in
  descending order together with their positions, and an error (a \<^verbatim>\<open>RuntimeError\<close>)
  for any other \<open>k\<close>. Which of several equal entries is returned, and in which order, is
  left open and differs between kernels. Every function that calls \<^verbatim>\<open>topk\<close> therefore
  takes the kernel as its first parameter, and the theorems assume \<open>topk_contract\<close> of
  it and nothing else. \<open>topk_ok xs k (vals, indices)\<close> says that a result is one the
  documentation allows.
\<close>

definition topk_ok :: "real list \<Rightarrow> nat \<Rightarrow> real list \<times> nat list \<Rightarrow> bool" where
  "topk_ok xs k res \<longleftrightarrow>
     (case res of (vals, indices) \<Rightarrow>
        length indices = k \<and> distinct indices \<and> list_all (\<lambda>i. i < length xs) indices \<and>
        vals = map (\<lambda>i. xs ! i) indices \<and> sorted_wrt (\<ge>) vals \<and>
        list_all (\<lambda>t. t \<in> set indices \<or> list_all (\<lambda>s. xs ! t \<le> xs ! s) indices)
          [0 ..< length xs])"

type_synonym kernel = "real list \<Rightarrow> int \<Rightarrow> error + (real list \<times> nat list)"

definition topk_contract :: "kernel \<Rightarrow> bool" where
  "topk_contract topk \<longleftrightarrow>
     (\<forall>xs k. if k < 0 \<or> int (length xs) < k then topk xs k = Inl RuntimeError
             else \<exists>res. topk xs k = Inr res \<and> topk_ok xs (nat k) res)"

text \<open>
  Kernels within the contract: \<open>topk_by visit\<close> ranks the positions by a stable sort
  that takes them in the order \<open>visit n\<close> (a rearrangement of \<open>0, ..., n - 1\<close>), so
  among equal entries the one visited first comes first. \<open>lowest_first\<close> visits the
  positions in ascending order, \<open>from_two\<close> starts at position 2 and wraps around.
\<close>

definition topk_by :: "(nat \<Rightarrow> nat list) \<Rightarrow> kernel" where
  "topk_by visit xs k =
     (if k < 0 \<or> int (length xs) < k then Inl RuntimeError
      else let indices = take (nat k) (sort_key (\<lambda>i. - (xs ! i)) (visit (length xs)))
           in Inr (map (\<lambda>i. xs ! i) indices, indices))"

definition lowest_first :: "nat \<Rightarrow> nat list" where
  "lowest_first n = [0 ..< n]"

definition from_two :: "nat \<Rightarrow> nat list" where
  "from_two n = [2 ..< n] @ [0 ..< min 2 n]"

text \<open>\<^verbatim>\<open>torch.nonzero(sel)\<close>: the positions at which \<open>sel\<close> is true, ascending.\<close>

definition nonzero :: "bool list \<Rightarrow> nat list" where
  "nonzero sel = filter (\<lambda>i. sel ! i) [0 ..< length sel]"

text \<open>
  The "compare values" part of \<^verbatim>\<open>search\<close>: the mask and the labels it selects. With a
  groups filter, \<^verbatim>\<open>torch.nonzero(sel).squeeze()\<close> is a zero-dimensional tensor when
  exactly one slot matches, and iterating over it raises \<^verbatim>\<open>TypeError\<close>.
\<close>

definition zi_search_mask ::
  "('l, 'g) zi_index \<Rightarrow> 'g keys option \<Rightarrow> error + (nat list \<times> 'l list)" where
  "zi_search_mask idx groups =
     (let num = zi_size idx in
      case groups of
        None \<Rightarrow> Inr ([0 ..< num], zi_labels idx)
      | Some gs \<Rightarrow>
          (case indexdict_idx (zi_grpids idx) (keys_list gs) of
             Inl e \<Rightarrow> Inl e
           | Inr ids \<Rightarrow>
               let sel = map (\<lambda>g. g \<in> int ` set ids) (take num (zi_groups idx));
                   idx' = nonzero sel
               in if length idx' = 1 then Inl TypeError
                  else Inr (idx', map (\<lambda>i. zi_labels idx ! i) idx')))"

text \<open>
  \<^verbatim>\<open>search(vecs, k, groups=None)\<close> on a two-dimensional query (one row per query
  vector): the result is \<^verbatim>\<open>(klab, kval)\<close>, one row of labels and one row of scores per
  query. \<^verbatim>\<open>zi_search1\<close> is the call with a one-dimensional query, which returns the
  single row.
\<close>

definition zi_search ::
  "kernel \<Rightarrow> ('l, 'g) zi_index \<Rightarrow> vec list \<Rightarrow> int \<Rightarrow> 'g keys option
     \<Rightarrow> error + ('l list list \<times> real list list)" where
  "zi_search topk idx vecs k groups =
     (let num = zi_size idx; k1 = min k (int num) in
      case zi_search_mask idx groups of
        Inl e \<Rightarrow> Inl e
      | Inr (slots, labs) \<Rightarrow>
     (case map_err (\<lambda>v. qe_similarity (zi_values idx) v slots) vecs of
        Inl e \<Rightarrow> Inl e
      | Inr sims \<Rightarrow>
          if k1 < 0 \<or> int (length slots) < k1 then Inl RuntimeError
          else
     (case map_err (\<lambda>row. topk row k1) sims of
        Inl e \<Rightarrow> Inl e
      | Inr tops \<Rightarrow>
          Inr (map (\<lambda>(vals, indices). map (\<lambda>i. labs ! i) indices) tops,
               map fst tops))))"

definition zi_search1 ::
  "kernel \<Rightarrow> ('l, 'g) zi_index \<Rightarrow> vec \<Rightarrow> int \<Rightarrow> 'g keys option
     \<Rightarrow> error + ('l list \<times> real list)" where
  "zi_search1 topk idx v k groups =
     (case zi_search topk idx [v] k groups of
        Inl e \<Rightarrow> Inl e
      | Inr (klab, kval) \<Rightarrow> Inr (hd klab, hd kval))"

text \<open>\<^verbatim>\<open>simil(vecs)\<close> with the default mask, on one query vector.\<close>

definition zi_simil :: "('l, 'g) zi_index \<Rightarrow> vec \<Rightarrow> error + real list" where
  "zi_simil idx v = qe_similarity (zi_values idx) v [0 ..< zi_size idx]"

text \<open>\<^verbatim>\<open>clear(zero=False)\<close>.\<close>

definition zi_clear :: "('l, 'g) zi_index \<Rightarrow> bool \<Rightarrow> ('l, 'g) zi_index outcome" where
  "zi_clear idx zero =
     (let idx1 = idx\<lparr>zi_labels := [], zi_labels_set := {}, zi_grpids := []\<rparr> in
      if zero then
        (None, idx1\<lparr>zi_values := (zi_values idx1)\<lparr>qe_raw :=
                       map (\<lambda>row. map (\<lambda>x. 0) row) (qe_raw (zi_values idx1))\<rparr>,
                     zi_groups := map (\<lambda>g. 0) (zi_groups idx1)\<rparr>)
      else (None, idx1))"

text \<open>The mutating calls on a grouped index, and a client that issues a sequence of
  them, going on after an exception.\<close>

datatype ('l, 'g) zi_op =
    ZiAdd "'l list" tensor2 "'g keys" bool
  | ZiRemove "'l list"
  | ZiClear bool

fun zi_apply :: "('l, 'g) zi_index \<Rightarrow> ('l, 'g) zi_op \<Rightarrow> ('l, 'g) zi_index outcome" where
  "zi_apply idx (ZiAdd labs vecs groups strict) = zi_add idx labs vecs groups strict"
| "zi_apply idx (ZiRemove labs) = zi_remove idx labs"
| "zi_apply idx (ZiClear zero) = zi_clear idx zero"

fun zi_run :: "('l, 'g) zi_index \<Rightarrow> ('l, 'g) zi_op list \<Rightarrow> ('l, 'g) zi_index" where
  "zi_run idx [] = idx"
| "zi_run idx (c # cs) = zi_run (snd (zi_apply idx c)) cs"

text \<open>
  The capacity of a grouped index is the size of its embedding store. As for the flat
  index: a sequence of calls in which no \<^verbatim>\<open>add\<close> lists a new label more than once,
  new meaning not in \<^verbatim>\<open>labels._set\<close>.
\<close>

definition zi_capacity :: "('l, 'g) zi_index \<Rightarrow> nat" where
  "zi_capacity idx = qe_size (zi_values idx)"

fun zi_calls_ok :: "('l, 'g) zi_index \<Rightarrow> ('l, 'g) zi_op list \<Rightarrow> bool" where
  "zi_calls_ok idx [] = True"
| "zi_calls_ok idx (c # cs) =
     ((case c of
         ZiAdd labs vecs groups strict \<Rightarrow> distinct (filter (\<lambda>x. x \<notin> zi_labels_set idx) labs)
       | ZiRemove labs \<Rightarrow> True
       | ZiClear zero \<Rightarrow> True)
      \<and> zi_calls_ok (snd (zi_apply idx c)) cs)"

section \<open>agent.py: the history database\<close>

text \<open>
  The class \<^verbatim>\<open>HistoryDatabase\<close>: \<^verbatim>\<open>max\<close>, the ring buffer \<^verbatim>\<open>txt\<close> of
  \<^verbatim>\<open>(meta, text)\<close> pairs, the \<^verbatim>\<open>float32\<close> tensor \<^verbatim>\<open>age\<close> (\<open>-1\<close> marks a slot
  never written) and
  the vector index \<^verbatim>\<open>idx\<close>, whose labels are ring positions and whose only group key
  is \<^verbatim>\<open>None\<close> (the unit value). Its functions carry the prefix \<open>hd_\<close>. The embedder \<^verbatim>\<open>embed.embed\<close> is external: \<open>embed'\<close> is a parameter of
  every function that calls it.
\<close>

record 'm HistoryDatabase =
  hd_max :: nat
  hd_txt :: "('m \<times> string) FiniteList"
  hd_age :: "real list"
  hd_idx :: "(nat, unit) zi_index"

definition hd_init :: "nat \<Rightarrow> nat \<Rightarrow> 'm HistoryDatabase" where
  "hd_init dims maxlen =
     \<lparr>hd_max = maxlen, hd_txt = FiniteList_init maxlen,
      hd_age = replicate maxlen (- 1), hd_idx = zi_init dims maxlen\<rparr>"

definition hd_len :: "'m HistoryDatabase \<Rightarrow> nat" where
  "hd_len h = len (hd_txt h)"

text \<open>
  \<^verbatim>\<open>append(txt, meta)\<close>: \<^verbatim>\<open>self.age[self.txt.pos] = 0\<close>, then
  \<^verbatim>\<open>self.idx.add(self.txt.pos, emb)\<close>, then \<^verbatim>\<open>self.txt.append((meta, txt))\<close>.
  \<^verbatim>\<open>emb\<close> is the embedding after \<^verbatim>\<open>squeeze()\<close>, which turns a vector of length 1
  into a zero-dimensional tensor: \<^verbatim>\<open>add\<close> then does not wrap its arguments and raises
  \<^verbatim>\<open>TypeError\<close> at \<^verbatim>\<open>len(labs)\<close>.
\<close>

definition hd_append ::
  "(string \<Rightarrow> vec) \<Rightarrow> 'm HistoryDatabase \<Rightarrow> string \<Rightarrow> 'm \<Rightarrow> 'm HistoryDatabase outcome" where
  "hd_append embed' h text meta =
     (let emb = embed' text; pos = fl_pos (hd_txt h) in
      if pos \<ge> length (hd_age h) then (Some IndexError, h)
      else
        let h1 = h\<lparr>hd_age := (hd_age h)[pos := 0]\<rparr> in
        if length emb = 1 then (Some TypeError, h1)
        else
        case zi_add (hd_idx h1) [pos] \<lparr>ncols = length emb, rows = [emb]\<rparr> (One ()) False of
          (Some e, idx1) \<Rightarrow> (Some e, h1\<lparr>hd_idx := idx1\<rparr>)
        | (None, idx1) \<Rightarrow>
            let h2 = h1\<lparr>hd_idx := idx1\<rparr> in
            case append_fl (hd_txt h2) (meta, text) of
              (r, txt1) \<Rightarrow> (r, h2\<lparr>hd_txt := txt1\<rparr>))"

text \<open>
  \<^verbatim>\<open>step()\<close>: \<^verbatim>\<open>self.age += (self.age >= 0)\<close>, an addition of 1 or 0 in
  \<^verbatim>\<open>float32\<close>.
\<close>

definition hd_step :: "'m HistoryDatabase \<Rightarrow> 'm HistoryDatabase" where
  "hd_step h = h\<lparr>hd_age := map (\<lambda>a. f32 (a + (if a \<ge> 0 then 1 else 0))) (hd_age h)\<rparr>"

text \<open>
  The discount \<^verbatim>\<open>disc\<close> of \<^verbatim>\<open>search\<close>: a Python float \<open>\<lambda>\<close>, standing for
  \<^verbatim>\<open>lambda a: torch.exp(-disc*a)\<close>, or a function of the age tensor. With a float, the
  scalar \<^verbatim>\<open>-disc\<close> is converted to \<^verbatim>\<open>float32\<close> for the product with the
  \<^verbatim>\<open>float32\<close> tensor \<^verbatim>\<open>a\<close>, and product and exponential are \<^verbatim>\<open>float32\<close>
  operations; the exponential kernel is taken to return the \<^verbatim>\<open>float32\<close> nearest to
  the exact value.
\<close>

datatype disc = Rate real | Func "real list \<Rightarrow> real list"

definition weight :: "real \<Rightarrow> real \<Rightarrow> real" where
  "weight d a = f32 (exp (f32 (f32 (- d) * a)))"

fun disco :: "disc \<Rightarrow> real list \<Rightarrow> real list" where
  "disco (Rate d) age = map (weight d) age"
| "disco (Func f) age = f age"

text \<open>
  The elementwise product \<^verbatim>\<open>disco(age)*sim0\<close> of two one-dimensional tensors: equal
  lengths, or one of them a single element that is broadcast; otherwise a
  \<^verbatim>\<open>RuntimeError\<close>. The weights are \<^verbatim>\<open>float32\<close>, the similarities come from the
  embedding store in \<^verbatim>\<open>float32\<close> or a narrower type, so each product is rounded to
  \<^verbatim>\<open>float32\<close>.
\<close>

definition broadcast_mul :: "real list \<Rightarrow> real list \<Rightarrow> error + real list" where
  "broadcast_mul xs ys =
     (if length xs = length ys then Inr (map2 (\<lambda>x y. f32 (x * y)) xs ys)
      else if length xs = 1 then Inr (map (\<lambda>y. f32 (hd xs * y)) ys)
      else if length ys = 1 then Inr (map (\<lambda>x. f32 (x * hd ys)) xs)
      else Inl RuntimeError)"

text \<open>
  The first half of \<^verbatim>\<open>search\<close>, after the test for an empty database: the tensor
  \<^verbatim>\<open>sim\<close> of age-weighted similarities, one entry per slot with a defined age.
\<close>

definition hd_sim :: "(string \<Rightarrow> vec) \<Rightarrow> 'm HistoryDatabase \<Rightarrow> string \<Rightarrow> disc \<Rightarrow> error + real list" where
  "hd_sim embed' h query disc =
     (let emb = embed' query;
          age = filter (\<lambda>a. a \<ge> 0) (hd_age h)
      in case zi_simil (hd_idx h) emb of
           Inl e \<Rightarrow> Inl e
         | Inr sim0 \<Rightarrow> broadcast_mul (disco disc age) sim0)"

text \<open>
  \<^verbatim>\<open>search(query, k=5, disc=0.2, cutoff=0.0)\<close>: the top \<^verbatim>\<open>min(k, size)\<close> entries of
  \<^verbatim>\<open>sim\<close>, those above the cutoff, looked up with \<^verbatim>\<open>self.txt[idxs]\<close>.
\<close>

definition hd_search ::
  "kernel \<Rightarrow> (string \<Rightarrow> vec) \<Rightarrow> 'm HistoryDatabase \<Rightarrow> string \<Rightarrow> int \<Rightarrow> disc \<Rightarrow> real
     \<Rightarrow> error + ('m \<times> string) list" where
  "hd_search topk embed' h query k disc cutoff =
     (let sz = hd_len h in
      if sz = 0 then Inr []
      else
        case hd_sim embed' h query disc of
          Inl e \<Rightarrow> Inl e
        | Inr sim \<Rightarrow>
       (case topk sim (min k (int sz)) of
          Inl e \<Rightarrow> Inl e
        | Inr (vals, indices) \<Rightarrow>
            let matches = zip indices vals;
                idxs = map fst (filter (\<lambda>(i, s). s > cutoff) matches)
            in getitem_list (hd_txt h) (map int idxs)))"

text \<open>
  The calls a client makes on a history database, and a client that issues a sequence
  of them, going on after an exception. \<^verbatim>\<open>search\<close> returns a value and leaves the
  database as it is.
\<close>

datatype 'm hd_op = Append string 'm | Step | Search string int disc real

fun hd_apply :: "(string \<Rightarrow> vec) \<Rightarrow> 'm HistoryDatabase \<Rightarrow> 'm hd_op \<Rightarrow> 'm HistoryDatabase" where
  "hd_apply embed' h (Append text meta) = snd (hd_append embed' h text meta)"
| "hd_apply embed' h Step = hd_step h"
| "hd_apply embed' h (Search query k disc cutoff) = h"

fun hd_run :: "(string \<Rightarrow> vec) \<Rightarrow> 'm HistoryDatabase \<Rightarrow> 'm hd_op list \<Rightarrow> 'm HistoryDatabase" where
  "hd_run embed' h [] = h"
| "hd_run embed' h (c # cs) = hd_run embed' (hd_apply embed' h c) cs"

text \<open>
  What every reachable history database satisfies: the age tensor and the ring buffer have
  the capacity \<^verbatim>\<open>max\<close>, the write cursor is below it, and every age is \<open>-1\<close> or a
  whole number from 0 to \<open>2^24\<close>.
\<close>

definition age_ok :: "real \<Rightarrow> bool" where
  "age_ok a \<longleftrightarrow> a = - 1 \<or> (a \<in> \<nat> \<and> a \<le> 2 ^ 24)"

definition hd_wf :: "'m HistoryDatabase \<Rightarrow> bool" where
  "hd_wf h \<longleftrightarrow>
     length (hd_age h) = hd_max h \<and> fl_max (hd_txt h) = hd_max h \<and>
     (0 < hd_max h \<longrightarrow> fl_pos (hd_txt h) < hd_max h) \<and>
     list_all age_ok (hd_age h)"

text \<open>
  What a history database of embedding dimension \<open>dims\<close> other than 1 satisfies as
  long as the embedder returns vectors of that dimension: with \<open>n\<close> items stored, the labels of the
  index are the ring positions \<open>0, ..., n - 1\<close> in order, these are the slots with a
  defined age, and until the buffer is full the write cursor is \<open>n\<close>.
\<close>

definition hd_inv :: "nat \<Rightarrow> 'm HistoryDatabase \<Rightarrow> bool" where
  "hd_inv dims h \<longleftrightarrow>
     hd_wf h \<and>
     len (hd_txt h) \<le> hd_max h \<and>
     (len (hd_txt h) < hd_max h \<longrightarrow> fl_pos (hd_txt h) = len (hd_txt h)) \<and>
     zi_labels (hd_idx h) = [0 ..< len (hd_txt h)] \<and>
     zi_labels_set (hd_idx h) = {0 ..< len (hd_txt h)} \<and>
     qe_dims (zi_values (hd_idx h)) = dims \<and>
     len (hd_txt h) \<le> length (qe_raw (zi_values (hd_idx h))) \<and>
     length (zi_groups (hd_idx h)) = length (qe_raw (zi_values (hd_idx h))) \<and>
     (\<forall>i < hd_max h. 0 \<le> hd_age h ! i \<longleftrightarrow> i < len (hd_txt h))"

section \<open>Example inputs\<close>

text \<open>
  A grouped index of dimension 2 and capacity 4 with the labels a, b, c, and one with
  the labels x, y of the spec's scenario.
\<close>

definition zi_abc :: "(string, string) zi_index" where
  "zi_abc = snd (zi_add (zi_init 2 4) [''a'', ''b'', ''c'']
                  \<lparr>ncols = 2, rows = [[1, 0], [0, 1], [1, 1]]\<rparr> (One ''g'') False)"

definition zi_xy :: "(string, string) zi_index" where
  "zi_xy = snd (zi_add (zi_init 2 4) [''x'', ''y'']
                 \<lparr>ncols = 2, rows = [[1, 0], [0, 1]]\<rparr> (One ''g'') False)"

text \<open>
  The flat index of dimension 1 and capacity 2 as \<^verbatim>\<open>__init__\<close> leaves it, and after
  \<^verbatim>\<open>add\<close> of the label a with the vector \<open>[1]\<close>.
\<close>

definition ix_two :: "string ix_index" where
  "ix_two = \<lparr>ix_max_size = 2, ix_dims = 1, ix_labels = [],
             ix_values = [[0], [0]], ix_groups = [0, 0]\<rparr>"

definition ix_one :: "string ix_index" where
  "ix_one = \<lparr>ix_max_size = 2, ix_dims = 1, ix_labels = [''a''],
             ix_values = [[1], [0]], ix_groups = [- 1, 0]\<rparr>"

text \<open>A grouped index whose four labels a, b, c, d all carry the vector \<open>[1,0]\<close>.\<close>

definition zi_same :: "(string, string) zi_index" where
  "zi_same = snd (zi_add (zi_init 2 4) [''a'', ''b'', ''c'', ''d'']
                   \<lparr>ncols = 2, rows = [[1, 0], [1, 0], [1, 0], [1, 0]]\<rparr> (One ''g'') False)"

text \<open>The same three labels in a flat index of capacity 4.\<close>

definition ix_abc :: "string ix_index" where
  "ix_abc = snd (ix_add \<lparr>ix_max_size = 4, ix_dims = 2, ix_labels = [],
                          ix_values = replicate 4 [0, 0], ix_groups = replicate 4 0\<rparr>
                  [''a'', ''b'', ''c'']
                  \<lparr>ncols = 2, rows = [[1, 0], [0, 1], [1, 1]]\<rparr> (Inl (- 1)) False)"

text \<open>
  Three embedders: one that tells the text a from every other text, one that gives
  them opposite vectors, and one that maps every text to the zero vector.
\<close>

definition embed_ab :: "string \<Rightarrow> vec" where
  "embed_ab text = (if text = ''a'' then [1, 0] else [0, 1])"

definition embed_sign :: "string \<Rightarrow> vec" where
  "embed_sign text = (if text = ''a'' then [1, 0] else [- 1, 0])"

definition embed_zero :: "string \<Rightarrow> vec" where
  "embed_zero text = [0, 0]"

text \<open>A history database of capacity 4 after \<^verbatim>\<open>append('a')\<close> and \<^verbatim>\<open>append('b')\<close>.\<close>

definition hd_ab :: "string HistoryDatabase" where
  "hd_ab = hd_run embed_ab (hd_init 2 4) [Append ''a'' ''first'', Append ''b'' ''second'']"

text \<open>A history database of capacity 4 after \<^verbatim>\<open>append('hello')\<close>, for each of the
  three embedders (with \<^verbatim>\<open>append('a')\<close> for the second).\<close>

definition hd_hello :: "string HistoryDatabase" where
  "hd_hello = hd_run embed_ab (hd_init 2 4) [Append ''hello'' ''greeting'']"

definition hd_sign :: "string HistoryDatabase" where
  "hd_sign = hd_run embed_sign (hd_init 2 4) [Append ''a'' ''first'']"

definition hd_zero :: "string HistoryDatabase" where
  "hd_zero = hd_run embed_zero (hd_init 2 4) [Append ''hello'' ''greeting'']"

section \<open>Rounding to single precision\<close>

lemma rne_of_int [simp]: "rne (of_int k) = k"
  by (simp add: rne_def)

lemma rne_bounds: "r - 1 / 2 \<le> of_int (rne r)" "of_int (rne r) \<le> r + 1 / 2"
  unfolding rne_def Let_def by (auto; linarith)+

lemma rne_mono:
  assumes "r \<le> s"
  shows "rne r \<le> rne s"
proof (cases "\<lfloor>r\<rfloor> = \<lfloor>s\<rfloor>")
  case True
  then show ?thesis using assms unfolding rne_def Let_def by auto
next
  case False
  then have lt: "\<lfloor>r\<rfloor> < \<lfloor>s\<rfloor>" using floor_mono [OF assms] by linarith
  have "rne r \<le> \<lfloor>r\<rfloor> + 1" unfolding rne_def Let_def by auto
  moreover have "\<lfloor>s\<rfloor> \<le> rne s" unfolding rne_def Let_def by auto
  ultimately show ?thesis using lt by linarith
qed

lemma rne_minus: "rne (- r) = - rne r"
proof (cases "r \<in> \<int>")
  case True
  then obtain k where "r = of_int k" by (auto elim: Ints_cases)
  then show ?thesis by (simp flip: of_int_minus)
next
  case False
  then have ne: "r \<noteq> of_int \<lfloor>r\<rfloor>" by (metis Ints_of_int)
  then have fl: "\<lfloor>- r\<rfloor> = - \<lfloor>r\<rfloor> - 1"
    by (simp add: floor_minus ceiling_altdef)
  have fr: "0 < r - of_int \<lfloor>r\<rfloor>" "r - of_int \<lfloor>r\<rfloor> < 1"
    using ne by linarith+
  show ?thesis
    unfolding rne_def Let_def fl using fr by (auto simp: field_simps)
qed

lemma f32_ulp_pos [simp]: "0 < f32_ulp x" "0 \<le> f32_ulp x" "f32_ulp x \<noteq> 0"
  by (simp_all add: f32_ulp_def)

lemma rne_zero [simp]: "rne 0 = 0"
  using rne_of_int [of 0] by simp

lemma rne_numeral [simp]: "rne (numeral n) = numeral n"
  using rne_of_int [of "numeral n"] by simp

lemma f32_zero [simp]: "f32 0 = 0"
  by (simp add: f32_def)

lemma f32_minus: "f32 (- x) = - f32 x"
  by (simp add: f32_def f32_ulp_def f32_exponent_def rne_minus)

lemma f32_nonneg: "0 \<le> x \<Longrightarrow> 0 \<le> f32 x"
proof -
  assume "0 \<le> x"
  then have "0 \<le> x / f32_ulp x" by (intro divide_nonneg_pos) simp_all
  then have "rne 0 \<le> rne (x / f32_ulp x)" by (rule rne_mono)
  then show ?thesis by (simp add: f32_def)
qed

lemma f32_exponent_bounds:
  assumes "x \<noteq> 0"
  shows "\<bar>x\<bar> < 2 powr of_int (f32_exponent x + 1)"
    and "- 126 \<le> \<lfloor>log 2 \<bar>x\<bar>\<rfloor> \<Longrightarrow> 2 powr of_int (f32_exponent x) \<le> \<bar>x\<bar>"
proof -
  have pos: "0 < \<bar>x\<bar>" using assms by simp
  have x: "\<bar>x\<bar> = 2 powr log 2 \<bar>x\<bar>" using pos by simp
  have "log 2 \<bar>x\<bar> < of_int (\<lfloor>log 2 \<bar>x\<bar>\<rfloor> + 1)" by linarith
  also have "\<dots> \<le> of_int (f32_exponent x + 1)" by (simp add: f32_exponent_def)
  finally have "2 powr log 2 \<bar>x\<bar> < 2 powr of_int (f32_exponent x + 1)"
    by (simp del: of_int_add)
  then show "\<bar>x\<bar> < 2 powr of_int (f32_exponent x + 1)" using x by simp
  show "2 powr of_int (f32_exponent x) \<le> \<bar>x\<bar>" if "- 126 \<le> \<lfloor>log 2 \<bar>x\<bar>\<rfloor>"
  proof -
    have "f32_exponent x = \<lfloor>log 2 \<bar>x\<bar>\<rfloor>" using that by (simp add: f32_exponent_def)
    then have "of_int (f32_exponent x) \<le> log 2 \<bar>x\<bar>" by simp
    then have "2 powr of_int (f32_exponent x) \<le> 2 powr log 2 \<bar>x\<bar>" by simp
    then show ?thesis using x by simp
  qed
qed

lemma f32_exponent_eq:
  assumes "2 powr of_int e \<le> \<bar>x\<bar>" and "\<bar>x\<bar> < 2 powr of_int (e + 1)" and "- 126 \<le> e"
  shows "f32_exponent x = e"
proof -
  have pos: "0 < \<bar>x\<bar>" using assms(1) by (smt (verit) powr_gt_zero)
  have "of_int e \<le> log 2 \<bar>x\<bar>"
    using assms(1) pos by (simp add: le_log_iff)
  moreover have "log 2 \<bar>x\<bar> < of_int (e + 1)"
    using assms(2) pos by (simp add: log_less_iff del: of_int_add)
  ultimately have "\<lfloor>log 2 \<bar>x\<bar>\<rfloor> = e" by linarith
  then show ?thesis using assms(3) by (simp add: f32_exponent_def)
qed

lemma f32_mono_pos:
  assumes "0 < x" and "x \<le> y"
  shows "f32 x \<le> f32 y"
proof -
  have ypos: "0 < y" using assms by simp
  have "log 2 \<bar>x\<bar> \<le> log 2 \<bar>y\<bar>" using assms by simp
  then have le: "f32_exponent x \<le> f32_exponent y"
    unfolding f32_exponent_def by (intro max.mono floor_mono) simp_all
  show ?thesis
  proof (cases "f32_exponent x = f32_exponent y")
    case True
    then have u: "f32_ulp x = f32_ulp y" by (simp add: f32_ulp_def)
    have "x / f32_ulp y \<le> y / f32_ulp y"
      using assms(2) by (intro divide_right_mono) (simp_all add: less_imp_le)
    then have "rne (x / f32_ulp y) \<le> rne (y / f32_ulp y)" by (rule rne_mono)
    then show ?thesis unfolding f32_def u by (simp add: mult_right_mono)
  next
    case False
    then have lt: "f32_exponent x + 1 \<le> f32_exponent y" using le by simp
    then have big: "- 126 \<le> \<lfloor>log 2 \<bar>y\<bar>\<rfloor>" "f32_exponent y = \<lfloor>log 2 \<bar>y\<bar>\<rfloor>"
      unfolding f32_exponent_def by linarith+
    have ylow: "2 powr of_int (f32_exponent y) \<le> y"
      using f32_exponent_bounds(2) [of y] ypos big by simp
    have xup: "x < 2 powr of_int (f32_exponent x + 1)"
      using f32_exponent_bounds(1) [of x] assms(1) by simp
    have "x / f32_ulp x \<le> 2 powr of_int (f32_exponent x + 1) / f32_ulp x"
      using xup by (intro divide_right_mono) (simp_all add: less_imp_le)
    also have "\<dots> = 2 powr 24"
      unfolding f32_ulp_def powr_diff [symmetric] by simp
    also have "\<dots> = of_int (2 ^ 24)" by simp
    finally have "rne (x / f32_ulp x) \<le> rne (of_int (2 ^ 24))" by (rule rne_mono)
    then have "of_int (rne (x / f32_ulp x)) \<le> (2 powr 24 :: real)"
      unfolding rne_of_int by (simp add: of_int_le_numeral_power_cancel_iff)
    then have "f32 x \<le> 2 powr 24 * f32_ulp x"
      unfolding f32_def by (simp add: mult_right_mono)
    also have "\<dots> = 2 powr of_int (f32_exponent x + 1)"
      unfolding f32_ulp_def powr_add [symmetric] by (simp add: algebra_simps)
    also have "\<dots> \<le> 2 powr of_int (f32_exponent y)"
      using lt by (simp del: of_int_add)
    finally have a: "f32 x \<le> 2 powr of_int (f32_exponent y)" .
    have "2 powr 23 = 2 powr of_int (f32_exponent y) / f32_ulp y"
      unfolding f32_ulp_def powr_diff [symmetric] by simp
    also have "\<dots> \<le> y / f32_ulp y"
      using ylow by (intro divide_right_mono) (simp_all add: less_imp_le)
    finally have "rne (of_int (2 ^ 23)) \<le> rne (y / f32_ulp y)"
      by (intro rne_mono) simp
    then have "(2 powr 23 :: real) \<le> of_int (rne (y / f32_ulp y))"
      unfolding rne_of_int by (simp add: numeral_power_le_of_int_cancel_iff)
    then have "2 powr 23 * f32_ulp y \<le> f32 y"
      unfolding f32_def by (simp add: mult_right_mono)
    moreover have "2 powr 23 * f32_ulp y = 2 powr of_int (f32_exponent y)"
      unfolding f32_ulp_def powr_add [symmetric] by simp
    ultimately show ?thesis using a by linarith
  qed
qed

lemma f32_mono:
  assumes "x \<le> y"
  shows "f32 x \<le> f32 y"
proof -
  consider "0 < x" | "x \<le> 0" "0 \<le> y" | "y < 0" by linarith
  then show ?thesis
  proof cases
    case 1
    then show ?thesis using assms by (rule f32_mono_pos)
  next
    case 2
    have "f32 x \<le> 0" using f32_nonneg [of "- x"] 2(1) by (simp add: f32_minus)
    moreover have "0 \<le> f32 y" using 2(2) by (rule f32_nonneg)
    ultimately show ?thesis by simp
  next
    case 3
    have "f32 (- y) \<le> f32 (- x)" using 3 assms by (intro f32_mono_pos) simp_all
    then show ?thesis by (simp add: f32_minus)
  qed
qed

lemma f32_error: "\<bar>f32 x - x\<bar> \<le> f32_ulp x / 2"
proof -
  define u where "u = f32_ulp x"
  have u: "0 < u" by (simp add: u_def)
  have "\<bar>of_int (rne (x / u)) - x / u\<bar> \<le> 1 / 2"
    using rne_bounds [of "x / u"] by linarith
  then have "\<bar>of_int (rne (x / u)) - x / u\<bar> * u \<le> 1 / 2 * u"
    using u by (intro mult_right_mono) simp_all
  moreover have "\<bar>of_int (rne (x / u)) - x / u\<bar> * u = \<bar>(of_int (rne (x / u)) - x / u) * u\<bar>"
    using u by (simp add: abs_mult)
  moreover have "(of_int (rne (x / u)) - x / u) * u = of_int (rne (x / u)) * u - x"
    using u by (simp add: left_diff_distrib)
  ultimately have "\<bar>of_int (rne (x / u)) * u - x\<bar> \<le> u / 2" by simp
  then show ?thesis by (simp add: f32_def u_def)
qed

lemma f32_exact:
  assumes "x = of_int m * f32_ulp x"
  shows "f32 x = x"
proof -
  have "of_int m * f32_ulp x / f32_ulp x = of_int m" by simp
  then have "x / f32_ulp x = of_int m" unfolding assms [symmetric] .
  then show ?thesis unfolding f32_def using assms by simp
qed

lemma f32_nat:
  assumes "n \<le> 2 ^ 24"
  shows "f32 (real n) = real n"
proof (cases "n = 0")
  case True
  then show ?thesis by simp
next
  case False
  define e where "e = \<lfloor>log 2 (real n)\<rfloor>"
  have n1: "1 \<le> real n" using False by simp
  have "0 \<le> log 2 (real n)" using n1 by simp
  then have e0: "0 \<le> e" by (simp add: e_def)
  have "real n \<le> 2 powr 24" using assms by simp
  then have "log 2 (real n) \<le> 24" using n1 by (simp add: log_le_iff)
  then have e24: "e \<le> 24" unfolding e_def by linarith
  have ex: "f32_exponent (real n) = e" using e0 by (simp add: f32_exponent_def e_def)
  show ?thesis
  proof (cases "e \<le> 23")
    case True
    define k where "k = nat (23 - e)"
    have "f32_ulp (real n) = 2 powr (- real k)"
      using True by (simp add: f32_ulp_def ex k_def)
    also have "\<dots> = 1 / 2 ^ k" by (simp add: powr_minus powr_realpow field_simps)
    finally have u: "f32_ulp (real n) = 1 / 2 ^ k" .
    have "real n = of_int (int n * 2 ^ k) * f32_ulp (real n)" by (simp add: u)
    then show ?thesis by (rule f32_exact)
  next
    case False
    then have e: "e = 24" using e24 by simp
    have "(24 :: real) \<le> log 2 (real n)" using e unfolding e_def by linarith
    then have "2 powr 24 \<le> real n" using n1 by (simp add: le_log_iff)
    then have n: "real n = 2 ^ 24" using assms by simp
    have u: "f32_ulp (real n) = 2" by (simp add: f32_ulp_def ex e)
    have "real n = of_int (2 ^ 23) * f32_ulp (real n)" unfolding u using n by simp
    then show ?thesis by (rule f32_exact)
  qed
qed

lemma f32_int_small:
  assumes "\<bar>k\<bar> \<le> 2 ^ 24"
  shows "f32 (of_int k) = of_int k"
proof (cases "0 \<le> k")
  case True
  then have "f32 (real (nat k)) = real (nat k)" using assms by (intro f32_nat) (simp add: nat_le_iff)
  then show ?thesis using True by simp
next
  case False
  then have "f32 (real (nat (- k))) = real (nat (- k))"
    using assms by (intro f32_nat) (simp add: nat_le_iff)
  then have "f32 (- of_int k) = - of_int k" using False by simp
  then show ?thesis by (simp add: f32_minus)
qed

lemma f32_one [simp]: "f32 1 = 1"
  using f32_nat [of 1] by simp

lemma f32_succ_top: "f32 16777217 = 16777216"
proof -
  have ex: "f32_exponent 16777217 = 24"
    by (rule f32_exponent_eq) simp_all
  have u: "f32_ulp 16777217 = 2" by (simp add: f32_ulp_def ex)
  have "rne (16777217 / 2) = 8388608"
  proof -
    have fl: "\<lfloor>16777217 / 2 :: real\<rfloor> = 8388608" by (simp add: floor_eq_iff)
    show ?thesis unfolding rne_def Let_def fl by simp
  qed
  then show ?thesis by (simp add: f32_def u)
qed

lemma f32_half:
  assumes "2 powr (- 125) \<le> \<bar>x\<bar>"
  shows "f32 (x / 2) = f32 x / 2"
proof -
  have pos: "0 < \<bar>x\<bar>" using assms by (smt (verit) powr_gt_zero)
  have "- 125 \<le> log 2 \<bar>x\<bar>" using assms pos by (simp add: le_log_iff)
  then have fl: "- 125 \<le> \<lfloor>log 2 \<bar>x\<bar>\<rfloor>" by linarith
  have "log 2 \<bar>x / 2\<bar> = log 2 \<bar>x\<bar> - 1" using pos by (simp add: log_divide)
  then have "\<lfloor>log 2 \<bar>x / 2\<bar>\<rfloor> = \<lfloor>log 2 \<bar>x\<bar>\<rfloor> - 1" by simp
  then have ex: "f32_exponent (x / 2) = f32_exponent x - 1"
    using fl by (simp add: f32_exponent_def)
  have "f32_ulp (x / 2) = 2 powr (of_int (f32_exponent x - 23) - 1)"
    by (simp add: f32_ulp_def ex algebra_simps)
  also have "\<dots> = f32_ulp x / 2" unfolding powr_diff by (simp add: f32_ulp_def)
  finally have u: "f32_ulp (x / 2) = f32_ulp x / 2" .
  show ?thesis by (simp add: f32_def u)
qed


lemma f32_pow2:
  assumes "- 126 \<le> e"
  shows "f32 (2 powr of_int e) = 2 powr of_int e"
proof -
  have ex: "f32_exponent (2 powr of_int e) = e"
    using assms by (intro f32_exponent_eq) (simp_all del: of_int_add)
  have u: "f32_ulp (2 powr of_int e) = 2 powr of_int (e - 23)"
    by (simp only: f32_ulp_def ex)
  have "(2 :: real) powr of_int e = of_int (2 ^ 23) * f32_ulp (2 powr of_int e)"
    unfolding u by (simp add: powr_diff)
  then show ?thesis by (rule f32_exact)
qed

lemma f32_half_value [simp]: "f32 (1 / 2) = 1 / 2"
  using f32_pow2 [of "- 1"] by (simp add: powr_minus_divide)

lemma f32_three_quarters: "f32 (- (3 / 4)) = - (3 / 4)"
proof -
  have ex: "f32_exponent (3 / 4) = - 1"
    by (rule f32_exponent_eq) (simp_all add: powr_minus_divide)
  have u: "f32_ulp (3 / 4) = 1 / 2 ^ 24"
    by (simp add: f32_ulp_def ex powr_minus_divide)
  have "(3 / 4 :: real) = of_int 12582912 * f32_ulp (3 / 4)" unfolding u by simp
  then have "f32 (3 / 4) = 3 / 4" by (rule f32_exact)
  then show ?thesis by (simp add: f32_minus)
qed

lemma f32_relative:
  assumes "2 powr (- 126) \<le> \<bar>x\<bar>"
  shows "\<bar>f32 x - x\<bar> \<le> \<bar>x\<bar> / 2 ^ 24"
proof -
  have pos: "0 < \<bar>x\<bar>" using assms by (smt (verit) powr_gt_zero)
  then have x0: "x \<noteq> 0" by simp
  have "- 126 \<le> log 2 \<bar>x\<bar>" using assms pos by (simp add: le_log_iff)
  then have "- 126 \<le> \<lfloor>log 2 \<bar>x\<bar>\<rfloor>" by linarith
  then have low: "2 powr of_int (f32_exponent x) \<le> \<bar>x\<bar>"
    by (rule f32_exponent_bounds(2) [OF x0])
  have "f32_ulp x = 2 powr of_int (f32_exponent x) / 2 ^ 23"
    by (simp add: f32_ulp_def powr_diff)
  also have "\<dots> \<le> \<bar>x\<bar> / 2 ^ 23" using low by (simp add: divide_right_mono)
  finally have "f32_ulp x / 2 \<le> \<bar>x\<bar> / 2 ^ 24" by simp
  then show ?thesis using f32_error [of x] by linarith
qed

lemma f32_nonpos: "x \<le> 0 \<Longrightarrow> f32 x \<le> 0"
  using f32_mono [of x 0] by simp

lemma weight_nonneg: "0 \<le> weight d a"
  unfolding weight_def by (rule f32_nonneg) simp

lemma weight_le_one:
  assumes "0 \<le> d" and "0 \<le> a"
  shows "weight d a \<le> 1"
proof -
  have "f32 (- d) \<le> 0" using assms(1) by (intro f32_nonpos) simp
  then have "f32 (- d) * a \<le> 0" using assms(2) by (simp add: mult_le_0_iff)
  then have "f32 (f32 (- d) * a) \<le> 0" by (rule f32_nonpos)
  then have "exp (f32 (f32 (- d) * a)) \<le> 1" by simp
  then have "f32 (exp (f32 (f32 (- d) * a))) \<le> f32 1" by (rule f32_mono)
  then show ?thesis by (simp add: weight_def)
qed

lemma weight_antimono:
  assumes "0 \<le> d" and "a \<le> b"
  shows "weight d b \<le> weight d a"
proof -
  have "f32 (- d) \<le> 0" using assms(1) by (intro f32_nonpos) simp
  then have "f32 (- d) * b \<le> f32 (- d) * a" using assms(2) by (rule mult_left_mono_neg [rotated])
  then have "f32 (f32 (- d) * b) \<le> f32 (f32 (- d) * a)" by (rule f32_mono)
  then have "exp (f32 (f32 (- d) * b)) \<le> exp (f32 (f32 (- d) * a))" by simp
  then show ?thesis unfolding weight_def by (rule f32_mono)
qed

lemma exp_three_quarters: "exp (- (3 / 4)) \<le> (1 / 2 :: real)"
proof -
  have "(2 :: real) \<le> 1 + 3 / 4 + (3 / 4)\<^sup>2 / 2" by (simp add: power2_eq_square)
  also have "\<dots> \<le> exp (3 / 4)" by (rule exp_lower_Taylor_quadratic) simp
  finally have "1 / exp (3 / 4) \<le> 1 / (2 :: real)" by (intro divide_left_mono) simp_all
  then show ?thesis by (simp add: exp_minus inverse_eq_divide)
qed

text \<open>After a decay of at least one e-fold the weight is at most one half.\<close>

lemma weight_half:
  assumes "1 \<le> d * a" and "0 \<le> a" and "a \<le> 2 ^ 24"
  shows "weight d a \<le> 1 / 2"
proof -
  have apos: "0 < a" using assms(1,2) by (cases "a = 0") auto
  have dpos: "0 < d"
  proof (rule ccontr)
    assume "\<not> 0 < d"
    then have "d * a \<le> 0" using apos by (simp add: mult_le_0_iff)
    then show False using assms(1) by simp
  qed
  have "1 \<le> d * 2 ^ 24"
    using assms(1,3) dpos by (smt (verit) mult_left_mono)
  then have "1 / 2 ^ 24 \<le> d" by (simp add: field_simps)
  moreover have "2 powr (- 126) \<le> (1 / 2 ^ 24 :: real)"
    by (simp add: powr_minus_divide)
  ultimately have "2 powr (- 126) \<le> \<bar>- d\<bar>" using dpos by simp
  then have "\<bar>f32 (- d) - (- d)\<bar> \<le> \<bar>- d\<bar> / 2 ^ 24" by (rule f32_relative)
  then have "f32 (- d) \<le> - d + d / 2 ^ 24" using dpos by linarith
  then have "f32 (- d) * a \<le> (- d + d / 2 ^ 24) * a"
    using apos by (intro mult_right_mono) simp_all
  also have "\<dots> = - (d * a) * (1 - 1 / 2 ^ 24)" by (simp add: algebra_simps)
  also have "\<dots> \<le> - 1 * (1 - 1 / 2 ^ 24)"
    using assms(1) by (intro mult_right_mono) simp_all
  also have "\<dots> \<le> - (3 / 4)" by simp
  finally have "f32 (f32 (- d) * a) \<le> f32 (- (3 / 4))" by (rule f32_mono)
  then have "f32 (f32 (- d) * a) \<le> - (3 / 4)" by (simp only: f32_three_quarters)
  then have "exp (f32 (f32 (- d) * a)) \<le> exp (- (3 / 4))" by simp
  then have "exp (f32 (f32 (- d) * a)) \<le> 1 / 2" using exp_three_quarters by linarith
  then have "f32 (exp (f32 (f32 (- d) * a))) \<le> f32 (1 / 2)" by (rule f32_mono)
  then show ?thesis by (simp add: weight_def)
qed

text \<open>A product with a weight of at most one half is strictly below the similarity.\<close>

lemma f32_halved_lower:
  assumes "0 \<le> w" and "w \<le> 1 / 2" and "2 powr (- 125) \<le> s"
  shows "f32 (w * s) < f32 (1 * s)"
proof -
  have spos: "0 < s" using assms(3) by (smt (verit) powr_gt_zero)
  have "w * s \<le> s / 2" using assms(2) spos by (simp add: field_simps)
  then have "f32 (w * s) \<le> f32 (s / 2)" by (rule f32_mono)
  also have "\<dots> = f32 s / 2" using assms(3) spos by (intro f32_half) simp
  finally have le: "f32 (w * s) \<le> f32 s / 2" .
  have "f32 (2 powr of_int (- 125)) \<le> f32 s" using assms(3) by (intro f32_mono) simp
  then have "2 powr of_int (- 125) \<le> f32 s" by (simp only: f32_pow2)
  then have "0 < f32 s" by (smt (verit) powr_gt_zero)
  then show ?thesis using le by simp
qed


lemma f32_eval:
  assumes "2 powr of_int e \<le> \<bar>x\<bar>" and "\<bar>x\<bar> < 2 powr of_int (e + 1)" and "- 126 \<le> e"
  shows "f32 x = of_int (rne (x / 2 powr of_int (e - 23))) * 2 powr of_int (e - 23)"
  by (simp only: f32_def f32_ulp_def f32_exponent_eq [OF assms])

lemma rne_eval:
  assumes "\<lfloor>r\<rfloor> = f" and "r - of_int f \<noteq> 1 / 2"
  shows "rne r = (if r - of_int f < 1 / 2 then f else f + 1)"
  using assms by (auto simp: rne_def Let_def)

lemma f32_fifth: "f32 (1 / 5) = 13421773 / 67108864"
proof -
  have "f32 (1 / 5) = of_int (rne ((1 / 5) / 2 powr of_int (- 3 - 23))) * 2 powr of_int (- 3 - 23)"
    by (rule f32_eval) (simp_all add: powr_minus_divide)
  moreover have "(1 / 5) / 2 powr of_int (- 3 - 23) = (67108864 / 5 :: real)"
    by (simp add: powr_minus_divide)
  moreover have "rne (67108864 / 5) = 13421773"
    by (subst rne_eval [of _ 13421772]) simp_all
  ultimately show ?thesis by (simp add: powr_minus_divide)
qed

lemma f32_above_one: "f32 (67108865 / 67108864) = 1"
proof -
  have "f32 (67108865 / 67108864)
      = of_int (rne ((67108865 / 67108864) / 2 powr of_int (0 - 23))) * 2 powr of_int (0 - 23)"
    by (rule f32_eval) simp_all
  moreover have "(67108865 / 67108864) / 2 powr of_int (0 - 23) = (67108865 / 8 :: real)"
    by (simp add: powr_minus_divide)
  moreover have "rne (67108865 / 8) = 8388608"
    by (subst rne_eval [of _ 8388608]) simp_all
  ultimately show ?thesis by (simp add: powr_minus_divide)
qed

lemma f32_below_one: "f32 (67108863 / 67108864) = 1"
proof -
  have "f32 (67108863 / 67108864)
      = of_int (rne ((67108863 / 67108864) / 2 powr of_int (- 1 - 23))) * 2 powr of_int (- 1 - 23)"
    by (rule f32_eval) (simp_all add: powr_minus_divide)
  moreover have "(67108863 / 67108864) / 2 powr of_int (- 1 - 23) = (67108863 / 4 :: real)"
    by (simp add: powr_minus_divide)
  moreover have "rne (67108863 / 4) = 16777216"
    by (subst rne_eval [of _ 16777215]) simp_all
  ultimately show ?thesis by (simp add: powr_minus_divide)
qed

text \<open>The default rate \<open>0.2\<close> at age 5, and the rate \<open>10^-9\<close> at age 5.\<close>

lemma weight_fifth_five: "weight (1 / 5) 5 = f32 (exp (- 1))"
proof -
  have "f32 (- (1 / 5)) * 5 = - (67108865 / 67108864)"
    by (simp add: f32_minus f32_fifth)
  then show ?thesis
    by (simp only: weight_def f32_minus f32_above_one)
qed

lemma weight_tiny_five: "weight (1 / 10 ^ 9) 5 = 1"
proof -
  have "f32 (1 / 10 ^ 9) \<le> f32 (2 powr of_int (- 29))"
    by (rule f32_mono) (simp add: powr_minus_divide)
  then have "f32 (1 / 10 ^ 9) \<le> 1 / 2 ^ 29"
    by (simp only: f32_pow2) (simp add: powr_minus_divide)
  then have "- (1 / 2 ^ 26) \<le> f32 (- (1 / 10 ^ 9)) * 5"
    by (simp add: f32_minus)
  then have "f32 (- (2 powr of_int (- 26))) \<le> f32 (f32 (- (1 / 10 ^ 9)) * 5)"
    by (intro f32_mono) (simp add: powr_minus_divide)
  then have low: "- (1 / 2 ^ 26) \<le> f32 (f32 (- (1 / 10 ^ 9)) * 5)"
    by (simp only: f32_minus f32_pow2) (simp add: powr_minus_divide)
  have "67108863 / 67108864 \<le> 1 + f32 (f32 (- (1 / 10 ^ 9)) * 5)"
    using low by simp
  also have "\<dots> \<le> exp (f32 (f32 (- (1 / 10 ^ 9)) * 5))" by (rule exp_ge_add_one_self)
  finally have "f32 (67108863 / 67108864) \<le> weight (1 / 10 ^ 9) 5"
    unfolding weight_def by (rule f32_mono)
  then have "1 \<le> weight (1 / 10 ^ 9) 5" by (simp only: f32_below_one)
  moreover have "weight (1 / 10 ^ 9) 5 \<le> 1" by (rule weight_le_one) simp_all
  ultimately show ?thesis by simp
qed

lemma weight_fifth_five_le: "f32 (exp (- 1)) \<le> 1 / 2"
  using weight_half [of "1 / 5" 5] by (simp add: weight_fifth_five)


text \<open>A \<^verbatim>\<open>float32\<close> value rounds to itself.\<close>

lemma f32_idem_pos:
  assumes "0 < x"
  shows "f32 (f32 x) = f32 x"
proof -
  define e where "e = f32_exponent x"
  define u where "u = f32_ulp x"
  define k where "k = rne (x / u)"
  have u: "u = 2 powr of_int (e - 23)" "0 < u" by (simp_all add: u_def e_def f32_ulp_def)
  have y: "f32 x = of_int k * u" by (simp add: f32_def k_def u_def)
  have e126: "- 126 \<le> e" by (simp add: e_def f32_exponent_def)
  have "0 \<le> x / u" using assms u(2) by simp
  then have "rne 0 \<le> k" unfolding k_def by (rule rne_mono)
  then have k0: "0 \<le> k" by simp
  have xup: "x < 2 powr of_int (e + 1)"
    using f32_exponent_bounds(1) [of x] assms by (simp add: e_def)
  have "x / u \<le> 2 powr of_int (e + 1) / u"
    using xup u(2) by (intro divide_right_mono) simp_all
  also have "\<dots> = 2 powr 24" unfolding u(1) powr_diff [symmetric] by simp
  also have "\<dots> = of_int (2 ^ 24)" by simp
  finally have "k \<le> rne (of_int (2 ^ 24))" unfolding k_def by (rule rne_mono)
  then have k24: "k \<le> 2 ^ 24" by simp
  consider "k = 0" | "k = 2 ^ 24" | "0 < k" "k < 2 ^ 24" using k0 k24 by linarith
  then show ?thesis
  proof cases
    case 1
    then show ?thesis by (simp add: y)
  next
    case 2
    have "of_int k * u = 2 powr 24 * 2 powr of_int (e - 23)" by (simp add: 2 u(1))
    also have "\<dots> = 2 powr of_int (e + 1)" unfolding powr_add [symmetric] by (simp add: algebra_simps)
    finally have "f32 x = 2 powr of_int (e + 1)" by (simp add: y)
    moreover have "- 126 \<le> e + 1" using e126 by simp
    ultimately show ?thesis by (simp only: f32_pow2)
  next
    case 3
    have ypos: "0 < f32 x" using 3(1) u(2) by (simp add: y)
    have "of_int k * u < 2 powr 24 * 2 powr of_int (e - 23)"
      unfolding u(1) using 3(2) by (intro mult_strict_right_mono) simp_all
    also have "\<dots> = 2 powr of_int (e + 1)" unfolding powr_add [symmetric] by (simp add: algebra_simps)
    finally have yup: "f32 x < 2 powr of_int (e + 1)" by (simp add: y)
    have ex: "f32_exponent (f32 x) = e"
    proof (cases "2 ^ 23 \<le> k")
      case True
      have "(2 :: real) powr of_int e = 2 powr 23 * 2 powr of_int (e - 23)"
        unfolding powr_add [symmetric] by simp
      also have "\<dots> \<le> of_int k * u"
        unfolding u(1) using True by (intro mult_right_mono) simp_all
      finally have "2 powr of_int e \<le> f32 x" by (simp add: y)
      then show ?thesis using yup ypos e126 by (intro f32_exponent_eq) simp_all
    next
      case False
      then have "k + 1 \<le> 2 ^ 23" by simp
      then have "(of_int (k + 1) :: real) \<le> of_int (2 ^ 23)" by (simp only: of_int_le_iff)
      then have "(of_int k :: real) + 1 \<le> 2 ^ 23" by simp
      moreover have "x / u \<le> of_int k + 1 / 2" unfolding k_def using rne_bounds(1) [of "x / u"] by linarith
      ultimately have "x / u < 2 ^ 23" by linarith
      then have "x < 2 ^ 23 * u" using u(2) by (simp add: field_simps)
      also have "\<dots> = 2 powr of_int e"
        unfolding u(1) by (simp add: powr_diff)
      finally have xlow: "x < 2 powr of_int e" .
      have "log 2 x < of_int e" using xlow assms by (simp add: log_less_iff)
      then have "\<lfloor>log 2 \<bar>x\<bar>\<rfloor> < e" using assms by (simp add: floor_less_iff)
      then have e: "e = - 126" unfolding e_def f32_exponent_def by linarith
      have "of_int k * u < 2 ^ 23 * u"
        using False u(2) by (intro mult_strict_right_mono) simp_all
      also have "\<dots> = 2 powr of_int e" unfolding u(1) by (simp add: powr_diff)
      finally have "f32 x < 2 powr of_int e" by (simp add: y)
      then have "log 2 (f32 x) < of_int e" using ypos by (simp add: log_less_iff)
      then have "\<lfloor>log 2 \<bar>f32 x\<bar>\<rfloor> < e" using ypos by (simp add: floor_less_iff)
      then show ?thesis unfolding f32_exponent_def e by simp
    qed
    have uy: "f32_ulp (f32 x) = u" by (simp only: f32_ulp_def ex u(1))
    have "f32 x = of_int k * f32_ulp (f32 x)" unfolding uy by (rule y)
    then show ?thesis by (rule f32_exact)
  qed
qed

lemma f32_idem [simp]: "f32 (f32 x) = f32 x"
proof -
  consider "0 < x" | "x = 0" | "x < 0" by linarith
  then show ?thesis
  proof cases
    case 1
    then show ?thesis by (rule f32_idem_pos)
  next
    case 2
    then show ?thesis by simp
  next
    case 3
    then have "f32 (f32 (- x)) = f32 (- x)" by (intro f32_idem_pos) simp
    then show ?thesis by (simp add: f32_minus)
  qed
qed

lemma weight_zero [simp]: "weight d 0 = 1"
  by (simp add: weight_def)

section \<open>Facts about the flat index\<close>

lemma next_power_of_2_nat:
  "0 < n \<Longrightarrow> next_power_of_2 (int n) = Inr (2 ^ nat \<lceil>log 2 (real n)\<rceil>)"
  by (simp add: next_power_of_2_def)

lemma next_power_of_2_zero: "next_power_of_2 (int 0) = Inl ValueError"
  by (simp add: next_power_of_2_def)

lemma next_power_of_2_between:
  assumes "2 ^ k < n" and "n \<le> 2 ^ Suc k"
  shows "next_power_of_2 (int n) = Inr (2 ^ Suc k)"
proof -
  have pos: "0 < n" using assms(1) by (cases n) auto
  have "\<lceil>log (real 2) (real n)\<rceil> = int k + 1"
    by (rule ceiling_log_nat_eq_if) (use assms in auto)
  then have c: "\<lceil>log 2 (real_of_int (int n))\<rceil> = int (Suc k)"
    by simp
  have "nat (round (real_of_int \<lceil>log 2 (real_of_int (int n))\<rceil>)) = Suc k"
    unfolding round_of_int c by simp
  then show ?thesis
    using pos unfolding next_power_of_2_def by simp
qed

lemma next_power_of_2_numerals:
  "next_power_of_2 1 = Inr 1" "next_power_of_2 2 = Inr 2"
  "next_power_of_2 3 = Inr 4" "next_power_of_2 4 = Inr 4"
proof -
  show "next_power_of_2 1 = Inr 1" "next_power_of_2 2 = Inr 2"
    by (simp_all add: next_power_of_2_def)
  show "next_power_of_2 3 = Inr 4"
    using next_power_of_2_between [of 1 3] by simp
  show "next_power_of_2 4 = Inr 4"
    using next_power_of_2_between [of 1 4] by simp
qed

lemma le_two_power_ceiling_log:
  assumes "0 < n"
  shows "n \<le> 2 ^ nat \<lceil>log 2 (real n)\<rceil>"
proof -
  have nonneg: "0 \<le> log 2 (real n)" using assms by simp
  have "real n = 2 powr log 2 (real n)" using assms by simp
  also have "\<dots> \<le> 2 powr real_of_int \<lceil>log 2 (real n)\<rceil>"
    by (rule powr_mono) simp_all
  also have "\<dots> = 2 powr real (nat \<lceil>log 2 (real n)\<rceil>)"
    using nonneg by simp
  also have "\<dots> = real (2 ^ nat \<lceil>log 2 (real n)\<rceil>)"
    by (simp add: powr_realpow)
  finally show ?thesis by linarith
qed

lemma frac_log2_zero_power:
  assumes "0 < m" and "frac (log 2 (real m)) = 0"
  shows "\<exists>k. m = 2 ^ k"
proof -
  from assms(2) obtain z :: int where z: "log 2 (real m) = of_int z"
    by (auto simp: frac_eq_0_iff elim: Ints_cases)
  have "0 \<le> log 2 (real m)" using assms(1) by simp
  then have z0: "0 \<le> z" using z by simp
  have "real m = 2 powr log 2 (real m)" using assms(1) by simp
  also have "\<dots> = 2 powr real (nat z)" using z z0 by simp
  also have "\<dots> = real (2 ^ nat z)" by (simp add: powr_realpow)
  finally have "m = 2 ^ nat z" by linarith
  then show ?thesis ..
qed

lemma next_power_of_2_cases:
  obtains (err) "x \<le> 0" "next_power_of_2 x = Inl ValueError"
  | (ok) k where "0 < x" "next_power_of_2 x = Inr (2 ^ k)" "x \<le> int (2 ^ k)"
proof (cases "x \<le> 0")
  case True
  then show ?thesis using err by (simp add: next_power_of_2_def)
next
  case False
  then obtain n where n: "x = int n" "0 < n"
    by (cases x) auto
  have "next_power_of_2 x = Inr (2 ^ nat \<lceil>log 2 (real n)\<rceil>)"
    unfolding n(1) by (rule next_power_of_2_nat [OF n(2)])
  moreover have "x \<le> int (2 ^ nat \<lceil>log 2 (real n)\<rceil>)"
    unfolding n(1) using le_two_power_ceiling_log [OF n(2)] by linarith
  ultimately show ?thesis using ok False by simp
qed


lemma length_fold_update:
  "length (fold (\<lambda>(i, v) a. a[i := v]) ps a) = length a"
  by (induction ps arbitrary: a) auto

lemma length_fold_update_const:
  "length (fold (\<lambda>i a. a[i := v]) idxs a) = length a"
  by (induction idxs arbitrary: a) auto

lemma index_put_length:
  "index_put a idxs vs = Inr a' \<Longrightarrow> length a' = length a"
  by (auto simp: index_put_def length_fold_update length_fold_update_const split: if_splits)

lemma slice_put_length:
  "slice_put a n0 n1 vs = Inr a' \<Longrightarrow> length a' = length a"
  by (simp add: slice_put_def index_put_length)

lemma index_get_length:
  "index_get a idxs = Inr vs \<Longrightarrow> length vs = length idxs"
  by (auto simp: index_get_def split: if_splits)

lemma slice_put_count:
  assumes "slice_put a n0 n1 vs = Inr a'" and "n0 \<le> n1" and "n1 \<le> length a"
  shows "length vs = n1 - n0 \<or> length vs = 1"
  using assms by (auto simp: slice_put_def index_put_def split: if_splits)

lemma novel_locs_snd: "snd (novel_locs novel i labs) = filter (\<lambda>x. x \<in> novel) labs"
  by (induction labs arbitrary: i) (simp_all add: Let_def case_prod_beta)

lemma novel_locs_length:
  "length (fst (novel_locs novel i labs)) = length (snd (novel_locs novel i labs))"
  by (induction labs arbitrary: i) (simp_all add: Let_def case_prod_beta)

lemma card_le_length_filter:
  assumes "novel \<subseteq> set labs"
  shows "card novel \<le> length (filter (\<lambda>x. x \<in> novel) labs)"
proof -
  have "set (filter (\<lambda>x. x \<in> novel) labs) = novel" using assms by auto
  then show ?thesis by (metis card_length)
qed

lemma ix_expand_props:
  assumes "ix_expand idx n = (r, idx1)"
  shows "ix_max_size idx \<le> ix_max_size idx1"
    and "ix_labels idx1 = ix_labels idx"
    and "ix_wf idx \<Longrightarrow> ix_wf idx1"
    and "r = None \<Longrightarrow> n \<le> ix_max_size idx1"
proof -
  show "ix_max_size idx \<le> ix_max_size idx1"
    using assms by (auto simp: ix_expand_def split: sum.splits if_splits)
  show "ix_labels idx1 = ix_labels idx"
    using assms by (auto simp: ix_expand_def split: sum.splits if_splits)
  show "ix_wf idx1" if "ix_wf idx"
  proof (cases rule: next_power_of_2_cases [of "int n"])
    case err
    then show ?thesis using assms that by (simp add: ix_expand_def)
  next
    case (ok k)
    then show ?thesis using assms that
      by (auto simp: ix_expand_def ix_wf_def resize_alloc_def split: if_splits)
  qed
  show "n \<le> ix_max_size idx1" if "r = None"
  proof (cases rule: next_power_of_2_cases [of "int n"])
    case err
    then show ?thesis using assms that by (simp add: ix_expand_def)
  next
    case (ok k)
    then show ?thesis using assms that
      by (auto simp: ix_expand_def split: if_splits)
  qed
qed

lemma ix_update_exist_props:
  assumes "ix_update_exist idx labs vecs grps exist = (r, idx1)"
  shows "ix_max_size idx1 = ix_max_size idx"
    and "ix_labels idx1 = ix_labels idx"
    and "ix_wf idx \<Longrightarrow> ix_wf idx1"
  using assms
  by (auto simp: ix_update_exist_def ix_wf_def Let_def dest: index_put_length
           split: sum.splits prod.splits)


lemma ix_append_novel_mono:
  assumes "ix_append_novel idx labs vecs grps novel = (r, idx1)"
  shows "ix_max_size idx \<le> ix_max_size idx1"
proof -
  obtain r0 idx0 where ex: "ix_expand idx (ix_size idx + card novel) = (r0, idx0)"
    by (cases "ix_expand idx (ix_size idx + card novel)")
  have "ix_max_size idx1 = ix_max_size idx0"
    using assms ex
    by (auto simp: ix_append_novel_def Let_def split: sum.splits prod.splits option.splits)
  then show ?thesis using ix_expand_props(1) [OF ex] by simp
qed

lemma ix_append_novel_wf:
  assumes "ix_append_novel idx labs vecs grps novel = (r, idx1)" and "ix_wf idx"
  shows "ix_wf idx1"
proof -
  obtain r0 idx0 where ex: "ix_expand idx (ix_size idx + card novel) = (r0, idx0)"
    by (cases "ix_expand idx (ix_size idx + card novel)")
  have wf0: "ix_wf idx0" using ix_expand_props(3) [OF ex] assms(2) .
  show ?thesis
    using assms(1) ex wf0
    by (auto simp: ix_append_novel_def ix_wf_def Let_def
             dest: slice_put_length split: sum.splits prod.splits option.splits)
qed

lemma ix_add_decompose:
  assumes "ix_add idx labs vecs groups strict = (r, idx1)"
  shows "idx1 = idx \<or>
    (\<exists>r0 idx0 grps exist novel.
       (idx0 = idx \<or> ix_update_exist idx labs vecs grps exist = (r0, idx0)) \<and>
       (idx1 = idx0 \<or>
        novel \<noteq> {} \<and> novel \<subseteq> set labs \<and>
        ix_append_novel idx0 labs vecs grps novel = (r, idx1)))"
proof -
  define grps where "grps = (case groups of Inl g \<Rightarrow> replicate (length labs) g | Inr gs \<Rightarrow> gs)"
  define exist where "exist = set labs \<inter> set (ix_labels idx)"
  define novel where "novel = set labs - exist"
  have sub: "novel \<subseteq> set labs" by (auto simp: novel_def)
  obtain r0 idx0 where up:
    "(if exist \<noteq> {} then ix_update_exist idx labs vecs grps exist else (None, idx)) = (r0, idx0)"
    by (cases "if exist \<noteq> {} then ix_update_exist idx labs vecs grps exist else (None, idx)")
  then have step1: "idx0 = idx \<or> ix_update_exist idx labs vecs grps exist = (r0, idx0)"
    by (auto split: if_splits)
  have "ix_add idx labs vecs groups strict =
      (if length (rows vecs) \<noteq> length labs then (Some AssertionError, idx)
       else if ncols vecs \<noteq> ix_dims idx then (Some AssertionError, idx)
       else if strict \<and> exist \<noteq> {} then (Some StrictAddError, idx)
       else case (r0, idx0) of
              (Some e, idx1) \<Rightarrow> (Some e, idx1)
            | (None, idx1) \<Rightarrow>
                if novel \<noteq> {} then ix_append_novel idx1 labs vecs grps novel else (None, idx1))"
    unfolding ix_add_def Let_def up [symmetric] grps_def exist_def novel_def by simp
  with assms have
    "idx1 = idx \<or> idx1 = idx0 \<or>
     novel \<noteq> {} \<and> ix_append_novel idx0 labs vecs grps novel = (r, idx1)"
    by (auto split: if_splits option.splits)
  with step1 sub show ?thesis by blast
qed

lemma ix_add_mono:
  assumes "ix_add idx labs vecs groups strict = (r, idx1)"
  shows "ix_max_size idx \<le> ix_max_size idx1"
  using ix_add_decompose [OF assms]
  by (auto dest!: ix_append_novel_mono ix_update_exist_props(1))

lemma ix_add_wf:
  assumes "ix_add idx labs vecs groups strict = (r, idx1)" and "ix_wf idx"
  shows "ix_wf idx1"
  using ix_add_decompose [OF assms(1)] assms(2)
  by (auto dest: ix_append_novel_wf ix_update_exist_props(3))

lemma filter_card_distinct:
  assumes "distinct (filter (\<lambda>x. x \<in> novel) labs)" and "novel \<subseteq> set labs"
  shows "length (filter (\<lambda>x. x \<in> novel) labs) = card novel"
proof -
  have "set (filter (\<lambda>x. x \<in> novel) labs) = novel" using assms(2) by auto
  then show ?thesis using distinct_card [OF assms(1)] by simp
qed

lemma ix_append_novel_size:
  assumes res: "ix_append_novel idx labs vecs grps novel = (r, idx1)"
    and sz: "ix_size idx \<le> ix_max_size idx" and sub: "novel \<subseteq> set labs"
    and dist: "distinct (filter (\<lambda>x. x \<in> novel) labs)"
  shows "ix_size idx1 \<le> ix_max_size idx1"
proof -
  define n1 where "n1 = ix_size idx + card novel"
  obtain xlocs xlabs where nl: "novel_locs novel 0 labs = (xlocs, xlabs)"
    by (cases "novel_locs novel 0 labs")
  obtain r0 idx0 where ex: "ix_expand idx n1 = (r0, idx0)"
    by (cases "ix_expand idx n1")
  have len: "length xlabs = card novel"
    using novel_locs_snd [of novel 0 labs] nl filter_card_distinct [OF dist sub] by simp
  have lab0: "ix_labels idx0 = ix_labels idx" using ix_expand_props(2) [OF ex] .
  show ?thesis
  proof (cases r0)
    case (Some e)
    then have "idx1 = idx0"
      using res nl ex by (simp add: ix_append_novel_def n1_def Let_def)
    then show ?thesis
      using sz lab0 ix_expand_props(1) [OF ex] by (simp add: ix_size_def)
  next
    case None
    have cap: "n1 \<le> ix_max_size idx0" using ix_expand_props(4) [OF ex None] .
    have "ix_labels idx1 = ix_labels idx0 @ xlabs \<and> ix_max_size idx1 = ix_max_size idx0"
      using res nl ex None
      by (auto simp: ix_append_novel_def n1_def Let_def split: sum.splits)
    then show ?thesis
      using cap lab0 len by (simp add: ix_size_def n1_def)
  qed
qed

lemma ix_add_size:
  assumes res: "ix_add idx labs vecs groups strict = (r, idx1)"
    and sz: "ix_size idx \<le> ix_max_size idx"
    and dist: "distinct (filter (\<lambda>x. x \<notin> set (ix_labels idx)) labs)"
  shows "ix_size idx1 \<le> ix_max_size idx1"
proof -
  define grps where "grps = (case groups of Inl g \<Rightarrow> replicate (length labs) g | Inr gs \<Rightarrow> gs)"
  define exist where "exist = set labs \<inter> set (ix_labels idx)"
  define novel where "novel = set labs - exist"
  have sub: "novel \<subseteq> set labs" by (auto simp: novel_def)
  have "filter (\<lambda>x. x \<in> novel) labs = filter (\<lambda>x. x \<notin> set (ix_labels idx)) labs"
    by (auto simp: novel_def exist_def intro: filter_cong)
  then have dn: "distinct (filter (\<lambda>x. x \<in> novel) labs)" using dist by simp
  obtain r0 idx0 where up:
    "(if exist \<noteq> {} then ix_update_exist idx labs vecs grps exist else (None, idx)) = (r0, idx0)"
    by (cases "if exist \<noteq> {} then ix_update_exist idx labs vecs grps exist else (None, idx)")
  then have "idx0 = idx \<or> ix_update_exist idx labs vecs grps exist = (r0, idx0)"
    by (auto split: if_splits)
  then have sz0: "ix_size idx0 \<le> ix_max_size idx0"
    using sz ix_update_exist_props(1,2) [of idx labs vecs grps exist r0 idx0]
    by (auto simp: ix_size_def)
  have "ix_add idx labs vecs groups strict =
      (if length (rows vecs) \<noteq> length labs then (Some AssertionError, idx)
       else if ncols vecs \<noteq> ix_dims idx then (Some AssertionError, idx)
       else if strict \<and> exist \<noteq> {} then (Some StrictAddError, idx)
       else case (r0, idx0) of
              (Some e, idx1) \<Rightarrow> (Some e, idx1)
            | (None, idx1) \<Rightarrow>
                if novel \<noteq> {} then ix_append_novel idx1 labs vecs grps novel else (None, idx1))"
    unfolding ix_add_def Let_def up [symmetric] grps_def exist_def novel_def by simp
  with res have
    "idx1 = idx \<or> idx1 = idx0 \<or> ix_append_novel idx0 labs vecs grps novel = (r, idx1)"
    by (auto split: if_splits option.splits)
  then show ?thesis
  proof (elim disjE)
    assume "idx1 = idx"
    then show ?thesis using sz by simp
  next
    assume "idx1 = idx0"
    then show ?thesis using sz0 by simp
  next
    assume "ix_append_novel idx0 labs vecs grps novel = (r, idx1)"
    then show ?thesis by (rule ix_append_novel_size [OF _ sz0 sub dn])
  qed
qed

section \<open>The ring buffer\<close>

lemmas fl_eval = FiniteList_init_def append_fl_def len_def empty_def full_def
  values_fl_def slice_down_from_def slice_down_to_def

text \<open>
  C2. \<^verbatim>\<open>values()\<close> is meant to list the stored items from the most recent to the
  least recent. On a capacity-4 buffer after appending A, B, C, D, E it returns
  \<open>[E, D, C]\<close>: the second slice \<^verbatim>\<open>data[:pos:-1]\<close> stops one position early and
  loses the oldest item B, which \<^verbatim>\<open>__getitem__\<close> does reach at logical index 3.
  When the buffer is full and \<^verbatim>\<open>pos\<close> is 0 (after A, B, C, D), the first slice
  \<^verbatim>\<open>data[-1::-1]\<close> is already the whole list and the second repeats three items.
\<close>

theorem values_fl_after_wraparound:
  "values_fl (snd (extend_fl (FiniteList_init 4) [''A'', ''B'', ''C'', ''D'', ''E'']))
     = [''E'', ''D'', ''C'']
   \<and> getitem_list (snd (extend_fl (FiniteList_init 4) [''A'', ''B'', ''C'', ''D'', ''E'']))
       [0, 1, 2, 3] = Inr [''E'', ''D'', ''C'', ''B'']
   \<and> values_fl (snd (extend_fl (FiniteList_init 4) [''A'', ''B'', ''C'', ''D'']))
     = [''D'', ''C'', ''B'', ''A'', ''D'', ''C'', ''B'']"
  by (simp add: fl_eval getitem_int_def)

text \<open>
  C7. \<^verbatim>\<open>slice_to_indices\<close> computes the clamped \<^verbatim>\<open>end\<close> and then builds the range
  from the raw \<^verbatim>\<open>stop\<close>: a stop beyond the size reaches \<^verbatim>\<open>__getitem__\<close> with an
  index out of range, which raises, and a negative stop selects nothing. Bounds
  inside the range work: \<^verbatim>\<open>[0:2]\<close> gives the two most recent items.
\<close>

theorem getitem_slice_stop_not_clamped:
  "getitem_slice (snd (extend_fl (FiniteList_init 4) [''A'', ''B'', ''C'', ''D'', ''E'']))
     (Slice (Some 0) (Some 10) None) = Inl IndexError
   \<and> getitem_slice (snd (extend_fl (FiniteList_init 4) [''A'', ''B'', ''C'', ''D'', ''E'']))
     (Slice None (Some (- 1)) None) = Inr []
   \<and> getitem_slice (snd (extend_fl (FiniteList_init 4) [''A'', ''B'', ''C'', ''D'', ''E'']))
     (Slice (Some 0) (Some 2) None) = Inr [''E'', ''D'']"
  by (simp add: fl_eval getitem_slice_def slice_to_indices_def py_range_def getitem_int_def upt_rec)

section \<open>Capacity of the flat index\<close>

lemma replicate_numeral: "replicate (numeral k) x = x # replicate (pred_numeral k) x"
  by (simp add: numeral_eq_Suc)

lemmas zi_eval = zi_add_def zi_init_def qe_init_def zi_append_novel_def zi_update_exist_def
  zi_expand_def orderedset_extend_def qe_size_def qe_resize_def resize_alloc_def zi_size_def
  index_get_def index_put_def slice_put_def indexdict_add_def zi_remove_def zi_get_def
  next_power_of_2_numerals list_pop_def zi_contains_def replicate_numeral

lemmas ix_eval = ix_add_def ix_append_novel_def ix_update_exist_def ix_expand_def ix_size_def
  ix_remove_def index_get_def index_put_def slice_put_def resize_alloc_def
  next_power_of_2_numerals list_pop_def replicate_numeral


lemma length_list_pop: "length (list_pop xs i) \<le> length xs"
  by (simp add: list_pop_def)

lemma ix_remove_props:
  "ix_max_size (snd (ix_remove idx labs)) = ix_max_size idx"
  "ix_size (snd (ix_remove idx labs)) \<le> ix_size idx"
  "ix_wf idx \<Longrightarrow> ix_wf (snd (ix_remove idx labs))"
  using length_list_pop [of "ix_labels idx"]
  by (auto simp: ix_remove_def Let_def ix_size_def ix_wf_def dest: index_put_length
           split: list.splits sum.splits)

lemma ix_apply_mono: "ix_max_size idx \<le> ix_max_size (snd (ix_apply idx c))"
proof (cases c)
  case (IxAdd labs vecs groups strict)
  then show ?thesis
    using ix_add_mono [of idx labs vecs groups strict]
    by (cases "ix_add idx labs vecs groups strict") simp
next
  case (IxRemove labs)
  then show ?thesis by (simp add: ix_remove_props)
next
  case IxClear
  then show ?thesis by (simp add: ix_clear_def)
qed

lemma ix_run_mono: "ix_max_size idx \<le> ix_max_size (ix_run idx cs)"
proof (induction cs arbitrary: idx)
  case Nil
  show ?case by simp
next
  case (Cons c cs)
  have "ix_max_size idx \<le> ix_max_size (snd (ix_apply idx c))" by (rule ix_apply_mono)
  also have "\<dots> \<le> ix_max_size (ix_run (snd (ix_apply idx c)) cs)" by (rule Cons.IH)
  finally show ?case by simp
qed

lemma ix_apply_wf: "ix_wf idx \<Longrightarrow> ix_wf (snd (ix_apply idx c))"
proof (cases c)
  case (IxAdd labs vecs groups strict)
  assume "ix_wf idx"
  then show ?thesis
    using IxAdd ix_add_wf [of idx labs vecs groups strict]
    by (cases "ix_add idx labs vecs groups strict") simp
next
  case (IxRemove labs)
  assume "ix_wf idx"
  then show ?thesis using IxRemove by (simp add: ix_remove_props)
next
  case IxClear
  assume "ix_wf idx"
  then show ?thesis using IxClear by (simp add: ix_clear_def ix_wf_def)
qed

lemma ix_run_wf: "ix_wf idx \<Longrightarrow> ix_wf (ix_run idx cs)"
  by (induction cs arbitrary: idx) (simp_all add: ix_apply_wf)

lemma ix_run_size:
  assumes "ix_calls_ok idx cs" and "ix_size idx \<le> ix_max_size idx"
  shows "ix_size (ix_run idx cs) \<le> ix_max_size (ix_run idx cs)"
  using assms
proof (induction cs arbitrary: idx)
  case Nil
  then show ?case by simp
next
  case (Cons c cs)
  have "ix_size (snd (ix_apply idx c)) \<le> ix_max_size (snd (ix_apply idx c))"
  proof (cases c)
    case (IxAdd labs vecs groups strict)
    then have "distinct (filter (\<lambda>x. x \<notin> set (ix_labels idx)) labs)"
      using Cons.prems(1) by simp
    then show ?thesis
      using IxAdd ix_add_size [of idx labs vecs groups strict _ _, OF _ Cons.prems(2)]
      by (cases "ix_add idx labs vecs groups strict") simp
  next
    case (IxRemove labs)
    then show ?thesis
      using ix_remove_props(1,2) [of idx labs] Cons.prems(2) by simp
  next
    case IxClear
    then show ?thesis by (simp add: ix_clear_def ix_size_def)
  qed
  moreover have "ix_calls_ok (snd (ix_apply idx c)) cs" using Cons.prems(1) by simp
  ultimately show ?case using Cons.IH by simp
qed

lemma ix_init_wf:
  assumes "ix_init dims m = Inr idx0"
  shows "ix_wf idx0 \<and> ix_size idx0 \<le> ix_max_size idx0"
proof -
  have m: "0 < m" "frac (log 2 (real m)) = 0"
    using assms by (auto simp: ix_init_def split: if_splits)
  obtain k where "m = 2 ^ k" using frac_log2_zero_power [OF m] by blast
  then show ?thesis
    using assms m by (auto simp: ix_init_def ix_wf_def ix_size_def split: if_splits)
qed

lemma ix_compress_nonempty:
  assumes "0 < ix_size idx"
  shows "\<exists>p. next_power_of_2 (int (ix_size idx)) = Inr p \<and>
             fst (ix_compress idx min_size) = None \<and>
             int (ix_max_size (snd (ix_compress idx min_size)))
               = min (int (ix_max_size idx)) (max min_size (int p))"
proof (cases rule: next_power_of_2_cases [of "int (ix_size idx)"])
  case err
  then show ?thesis using assms by simp
next
  case (ok k)
  define p :: nat where "p = 2 ^ k"
  have np: "next_power_of_2 (int (ix_size idx)) = Inr p" and ppos: "0 < p"
    using ok by (simp_all add: p_def)
  have "fst (ix_compress idx min_size) = None \<and>
        int (ix_max_size (snd (ix_compress idx min_size)))
          = min (int (ix_max_size idx)) (max min_size (int p))"
    using ppos by (auto simp: ix_compress_def np Let_def max_def min_def)
  with np show ?thesis by blast
qed

section \<open>Capacity of the grouped index\<close>

lemma zi_expand_cap:
  assumes "zi_expand idx n True = (r, idx1)"
  shows "zi_capacity idx \<le> zi_capacity idx1"
    and "zi_capacity idx1 = zi_capacity idx \<or> (\<exists>k. zi_capacity idx1 = 2 ^ k)"
    and "r = None \<Longrightarrow> n \<le> zi_capacity idx1"
    and "zi_labels idx1 = zi_labels idx"
proof -
  note defs = zi_expand_def zi_capacity_def qe_size_def qe_resize_def resize_alloc_def
  show "zi_capacity idx \<le> zi_capacity idx1"
    using assms by (auto simp: defs split: sum.splits if_splits)
  show "zi_labels idx1 = zi_labels idx"
    using assms by (auto simp: defs split: sum.splits if_splits)
  show "zi_capacity idx1 = zi_capacity idx \<or> (\<exists>k. zi_capacity idx1 = 2 ^ k)"
  proof (cases rule: next_power_of_2_cases [of "int n"])
    case err
    then show ?thesis using assms by (simp add: defs)
  next
    case (ok k)
    then show ?thesis using assms by (auto simp: defs split: if_splits)
  qed
  show "n \<le> zi_capacity idx1" if "r = None"
  proof (cases rule: next_power_of_2_cases [of "int n"])
    case err
    then show ?thesis using assms that by (simp add: defs)
  next
    case (ok k)
    then show ?thesis using assms that by (auto simp: defs split: if_splits)
  qed
qed

lemma zi_update_exist_cap:
  assumes "zi_update_exist idx labs vecs gids exist = (r, idx1)"
  shows "zi_capacity idx1 = zi_capacity idx" and "zi_labels idx1 = zi_labels idx"
  using assms
  by (auto simp: zi_update_exist_def zi_capacity_def qe_size_def Let_def
           dest: index_put_length split: sum.splits prod.splits)

lemma zi_append_novel_cap:
  assumes res: "zi_append_novel idx labs vecs gids novel = (r, idx1)"
  shows "zi_capacity idx \<le> zi_capacity idx1"
    and "zi_capacity idx1 = zi_capacity idx \<or> (\<exists>k. zi_capacity idx1 = 2 ^ k)"
    and "zi_size idx \<le> zi_capacity idx \<Longrightarrow> novel \<subseteq> set labs \<Longrightarrow>
         distinct (filter (\<lambda>x. x \<in> novel) labs) \<Longrightarrow> zi_size idx1 \<le> zi_capacity idx1"
proof -
  define n1 where "n1 = zi_size idx + card novel"
  obtain xlocs xlabs where nl: "novel_locs novel 0 labs = (xlocs, xlabs)"
    by (cases "novel_locs novel 0 labs")
  obtain r0 idx0 where ex: "zi_expand idx n1 True = (r0, idx0)"
    by (cases "zi_expand idx n1 True")
  note e = zi_expand_cap [OF ex]
  have shape: "zi_capacity idx1 = zi_capacity idx0 \<and>
      (zi_labels idx1 = zi_labels idx0 \<or>
       r0 = None \<and> zi_labels idx1 = zi_labels idx0 @ xlabs)"
    using res nl ex
    by (auto simp: zi_append_novel_def orderedset_extend_def n1_def Let_def zi_capacity_def
                   qe_size_def
             dest: slice_put_length split: sum.splits option.splits if_splits)
  show "zi_capacity idx \<le> zi_capacity idx1" using shape e(1) by simp
  show "zi_capacity idx1 = zi_capacity idx \<or> (\<exists>k. zi_capacity idx1 = 2 ^ k)"
    using shape e(2) by simp
  show "zi_size idx1 \<le> zi_capacity idx1"
    if sz: "zi_size idx \<le> zi_capacity idx" and sub: "novel \<subseteq> set labs"
      and dist: "distinct (filter (\<lambda>x. x \<in> novel) labs)"
  proof -
    have len: "length xlabs = card novel"
      using novel_locs_snd [of novel 0 labs] nl filter_card_distinct [OF dist sub] by simp
    from shape show ?thesis
    proof (elim conjE disjE)
      assume "zi_capacity idx1 = zi_capacity idx0" "zi_labels idx1 = zi_labels idx0"
      then show ?thesis using sz e(1,4) by (simp add: zi_size_def)
    next
      assume "zi_capacity idx1 = zi_capacity idx0" "r0 = None"
        "zi_labels idx1 = zi_labels idx0 @ xlabs"
      then show ?thesis using e(3,4) len by (simp add: zi_size_def n1_def)
    qed
  qed
qed

lemma zi_add_cap:
  assumes res: "zi_add idx labs vecs groups strict = (r, idx1)"
  shows "zi_capacity idx \<le> zi_capacity idx1"
    and "zi_capacity idx1 = zi_capacity idx \<or> (\<exists>k. zi_capacity idx1 = 2 ^ k)"
    and "zi_size idx \<le> zi_capacity idx \<Longrightarrow>
         distinct (filter (\<lambda>x. x \<notin> zi_labels_set idx) labs) \<Longrightarrow> zi_size idx1 \<le> zi_capacity idx1"
proof -
  define idxg where "idxg = idx\<lparr>zi_grpids := indexdict_add (zi_grpids idx) groups\<rparr>"
  define exist where "exist = zi_labels_set idx \<inter> set labs"
  define novel where "novel = set labs - exist"
  have g: "zi_capacity idxg = zi_capacity idx" "zi_labels idxg = zi_labels idx"
    by (simp_all add: idxg_def zi_capacity_def)
  have "idx1 = idx \<or> idx1 = idxg \<or>
    (\<exists>gids r2 idx2.
       (idx2 = idxg \<or> zi_update_exist idxg labs vecs gids exist = (r2, idx2)) \<and>
       (idx1 = idx2 \<or> zi_append_novel idx2 labs vecs gids novel = (r, idx1)))"
    using res
    unfolding zi_add_def Let_def idxg_def [symmetric] exist_def [symmetric] novel_def [symmetric]
    by (auto split: if_splits sum.splits option.splits prod.splits)
  then consider "zi_capacity idx1 = zi_capacity idx" "zi_labels idx1 = zi_labels idx"
    | gids idx2 where "zi_capacity idx2 = zi_capacity idx" "zi_labels idx2 = zi_labels idx"
        "zi_append_novel idx2 labs vecs gids novel = (r, idx1)"
    using g zi_update_exist_cap by metis
  note split = this
  show "zi_capacity idx \<le> zi_capacity idx1"
    by (cases rule: split) (use zi_append_novel_cap(1) in force)+
  show "zi_capacity idx1 = zi_capacity idx \<or> (\<exists>k. zi_capacity idx1 = 2 ^ k)"
    by (cases rule: split) (use zi_append_novel_cap(2) in force)+
  show "zi_size idx1 \<le> zi_capacity idx1"
    if sz: "zi_size idx \<le> zi_capacity idx"
      and dist: "distinct (filter (\<lambda>x. x \<notin> zi_labels_set idx) labs)"
  proof (cases rule: split)
    case 1
    then show ?thesis using sz by (simp add: zi_size_def)
  next
    case (2 gids idx2)
    have "filter (\<lambda>x. x \<in> novel) labs = filter (\<lambda>x. x \<notin> zi_labels_set idx) labs"
      by (auto simp: novel_def exist_def intro: filter_cong)
    then have d: "distinct (filter (\<lambda>x. x \<in> novel) labs)" using dist by simp
    have "zi_size idx2 \<le> zi_capacity idx2" using 2(1,2) sz by (simp add: zi_size_def)
    then show ?thesis
      using zi_append_novel_cap(3) [OF 2(3) _ _ d] by (auto simp: novel_def)
  qed
qed

lemma zi_remove_loop_cap:
  assumes "zi_remove_loop sz idx labs = (r, idx1)"
  shows "zi_capacity idx1 = zi_capacity idx \<and> zi_size idx1 \<le> zi_size idx"
  using assms
proof (induction labs arbitrary: idx)
  case Nil
  then show ?case by simp
next
  case (Cons lab labs)
  show ?case
  proof (cases "list_index (zi_labels idx) lab")
    case (Inl e)
    then show ?thesis using Cons.prems by simp
  next
    case (Inr i)
    define idxp where "idxp = idx\<lparr>zi_labels := list_pop (zi_labels idx) i\<rparr>"
    have p: "zi_capacity idxp = zi_capacity idx" "zi_size idxp \<le> zi_size idx"
      using length_list_pop [of "zi_labels idx" i]
      by (simp_all add: idxp_def zi_capacity_def zi_size_def)
    have "(zi_capacity idx1 = zi_capacity idxp \<and> zi_labels idx1 = zi_labels idxp)
        \<or> (\<exists>idx3. zi_capacity idx3 = zi_capacity idxp \<and> zi_labels idx3 = zi_labels idxp
              \<and> zi_remove_loop sz idx3 labs = (r, idx1))"
      using Cons.prems Inr unfolding idxp_def
      by (auto simp: Let_def zi_capacity_def qe_size_def dest: index_put_length
               split: sum.splits)
    then show ?thesis
    proof
      assume "zi_capacity idx1 = zi_capacity idxp \<and> zi_labels idx1 = zi_labels idxp"
      then show ?thesis using p by (simp add: zi_size_def)
    next
      assume "\<exists>idx3. zi_capacity idx3 = zi_capacity idxp \<and> zi_labels idx3 = zi_labels idxp
              \<and> zi_remove_loop sz idx3 labs = (r, idx1)"
      then obtain idx3 where 3: "zi_capacity idx3 = zi_capacity idxp"
          "zi_labels idx3 = zi_labels idxp" "zi_remove_loop sz idx3 labs = (r, idx1)"
        by blast
      from Cons.IH [OF 3(3)] 3(1,2) p show ?thesis by (simp add: zi_size_def)
    qed
  qed
qed

lemma zi_apply_cap:
  shows "zi_capacity idx \<le> zi_capacity (snd (zi_apply idx c))"
    and "zi_capacity (snd (zi_apply idx c)) = zi_capacity idx
         \<or> (\<exists>k. zi_capacity (snd (zi_apply idx c)) = 2 ^ k)"
    and "zi_size idx \<le> zi_capacity idx \<Longrightarrow> zi_calls_ok idx [c]
         \<Longrightarrow> zi_size (snd (zi_apply idx c)) \<le> zi_capacity (snd (zi_apply idx c))"
proof -
  have all: "zi_capacity idx \<le> zi_capacity (snd (zi_apply idx c))
    \<and> (zi_capacity (snd (zi_apply idx c)) = zi_capacity idx
         \<or> (\<exists>k. zi_capacity (snd (zi_apply idx c)) = 2 ^ k))
    \<and> (zi_size idx \<le> zi_capacity idx \<longrightarrow> zi_calls_ok idx [c]
         \<longrightarrow> zi_size (snd (zi_apply idx c)) \<le> zi_capacity (snd (zi_apply idx c)))"
  proof (cases c)
    case (ZiAdd labs vecs groups strict)
    obtain r idx1 where a: "zi_add idx labs vecs groups strict = (r, idx1)"
      by (cases "zi_add idx labs vecs groups strict")
    show ?thesis
      using ZiAdd a zi_add_cap [OF a] by simp
  next
    case (ZiRemove labs)
    obtain r idx1 where rm: "zi_remove idx labs = (r, idx1)"
      by (cases "zi_remove idx labs")
    then show ?thesis
      using ZiRemove
        zi_remove_loop_cap [of "zi_size idx" idx
          "remdups (filter (\<lambda>l. l \<in> zi_labels_set idx) labs)" r idx1]
      by (auto simp: zi_remove_def Let_def)
  next
    case (ZiClear zero)
    then show ?thesis
      by (simp add: zi_clear_def Let_def zi_capacity_def qe_size_def zi_size_def)
  qed
  show "zi_capacity idx \<le> zi_capacity (snd (zi_apply idx c))" using all by simp
  show "zi_capacity (snd (zi_apply idx c)) = zi_capacity idx
         \<or> (\<exists>k. zi_capacity (snd (zi_apply idx c)) = 2 ^ k)" using all by simp
  show "zi_size idx \<le> zi_capacity idx \<Longrightarrow> zi_calls_ok idx [c]
         \<Longrightarrow> zi_size (snd (zi_apply idx c)) \<le> zi_capacity (snd (zi_apply idx c))"
    using all by simp
qed

lemma zi_run_cap:
  shows "zi_capacity idx \<le> zi_capacity (zi_run idx cs)"
    and "zi_capacity (zi_run idx cs) = zi_capacity idx
         \<or> (\<exists>k. zi_capacity (zi_run idx cs) = 2 ^ k)"
    and "zi_size idx \<le> zi_capacity idx \<Longrightarrow> zi_calls_ok idx cs
         \<Longrightarrow> zi_size (zi_run idx cs) \<le> zi_capacity (zi_run idx cs)"
proof -
  show "zi_capacity idx \<le> zi_capacity (zi_run idx cs)"
  proof (induction cs arbitrary: idx)
    case Nil
    show ?case by simp
  next
    case (Cons c cs)
    have "zi_capacity idx \<le> zi_capacity (snd (zi_apply idx c))" by (rule zi_apply_cap(1))
    also have "\<dots> \<le> zi_capacity (zi_run (snd (zi_apply idx c)) cs)" by (rule Cons.IH)
    finally show ?case by simp
  qed
  show "zi_capacity (zi_run idx cs) = zi_capacity idx
         \<or> (\<exists>k. zi_capacity (zi_run idx cs) = 2 ^ k)"
  proof (induction cs arbitrary: idx)
    case Nil
    show ?case by simp
  next
    case (Cons c cs)
    from Cons.IH [of "snd (zi_apply idx c)"] zi_apply_cap(2) [of idx c]
    show ?case by auto
  qed
  show "zi_size idx \<le> zi_capacity idx \<Longrightarrow> zi_calls_ok idx cs
         \<Longrightarrow> zi_size (zi_run idx cs) \<le> zi_capacity (zi_run idx cs)"
  proof (induction cs arbitrary: idx)
    case Nil
    then show ?case by simp
  next
    case (Cons c cs)
    have "zi_calls_ok idx [c]" and rest: "zi_calls_ok (snd (zi_apply idx c)) cs"
      using Cons.prems(2) by simp_all
    then have "zi_size (snd (zi_apply idx c)) \<le> zi_capacity (snd (zi_apply idx c))"
      using zi_apply_cap(3) Cons.prems(1) by blast
    then show ?case using Cons.IH rest by simp
  qed
qed

text \<open>
  C4, as the code has it. In index.py, from a fresh index, after any sequence of
  \<^verbatim>\<open>add\<close>, \<^verbatim>\<open>remove\<close> and \<^verbatim>\<open>clear\<close> calls, raising or not, the capacity
  \<^verbatim>\<open>max_size\<close> is a power of two; it is at least \<^verbatim>\<open>size()\<close> when no \<^verbatim>\<open>add\<close> of the
  sequence lists a new label more than once. No such sequence decreases the capacity,
  from any state. \<^verbatim>\<open>compress\<close> on a non-empty index returns normally and leaves the
  capacity at the smaller of the current capacity and
  \<open>max(min_size, next_power_of_2(size))\<close>: it never grows the index. In ziggy/index.py,
  whose constructor takes any initial size \<open>sz\<close>, the capacity after any sequence of calls
  is \<open>sz\<close> or a power of two, at least \<^verbatim>\<open>size()\<close> under the same condition on the
  \<^verbatim>\<open>add\<close> calls, and never decreases.
\<close>

theorem ix_capacity_power_of_two:
  "(ix_init dims m = Inr idx0
      \<longrightarrow> (\<exists>k. ix_max_size (ix_run idx0 ops) = 2 ^ k)
        \<and> (ix_calls_ok idx0 ops \<longrightarrow> ix_size (ix_run idx0 ops) \<le> ix_max_size (ix_run idx0 ops)))
   \<and> ix_max_size st \<le> ix_max_size (ix_run st ops')
   \<and> (0 < ix_size c
      \<longrightarrow> (\<exists>p. next_power_of_2 (int (ix_size c)) = Inr p \<and>
               fst (ix_compress c min_size) = None \<and>
               int (ix_max_size (snd (ix_compress c min_size)))
                 = min (int (ix_max_size c)) (max min_size (int p))))
   \<and> (zi_capacity (zi_run (zi_init zdims sz) zops) = sz
      \<or> (\<exists>k. zi_capacity (zi_run (zi_init zdims sz) zops) = 2 ^ k))
   \<and> (zi_calls_ok (zi_init zdims sz) zops
      \<longrightarrow> zi_size (zi_run (zi_init zdims sz) zops)
            \<le> zi_capacity (zi_run (zi_init zdims sz) zops))
   \<and> zi_capacity zst \<le> zi_capacity (zi_run zst zops')"
proof (intro conjI)
  show "ix_init dims m = Inr idx0
      \<longrightarrow> (\<exists>k. ix_max_size (ix_run idx0 ops) = 2 ^ k)
        \<and> (ix_calls_ok idx0 ops \<longrightarrow> ix_size (ix_run idx0 ops) \<le> ix_max_size (ix_run idx0 ops))"
  proof
    assume "ix_init dims m = Inr idx0"
    then have wf: "ix_wf idx0" and sz: "ix_size idx0 \<le> ix_max_size idx0"
      using ix_init_wf by blast+
    have "\<exists>k. ix_max_size (ix_run idx0 ops) = 2 ^ k"
      using ix_run_wf [OF wf, of ops] by (simp add: ix_wf_def)
    moreover have "ix_size (ix_run idx0 ops) \<le> ix_max_size (ix_run idx0 ops)"
      if "ix_calls_ok idx0 ops"
      using ix_run_size [OF that sz] .
    ultimately show "(\<exists>k. ix_max_size (ix_run idx0 ops) = 2 ^ k)
        \<and> (ix_calls_ok idx0 ops \<longrightarrow> ix_size (ix_run idx0 ops) \<le> ix_max_size (ix_run idx0 ops))"
      by blast
  qed
next
  show "ix_max_size st \<le> ix_max_size (ix_run st ops')" by (rule ix_run_mono)
next
  show "0 < ix_size c
      \<longrightarrow> (\<exists>p. next_power_of_2 (int (ix_size c)) = Inr p \<and>
               fst (ix_compress c min_size) = None \<and>
               int (ix_max_size (snd (ix_compress c min_size)))
                 = min (int (ix_max_size c)) (max min_size (int p)))"
    using ix_compress_nonempty by blast
next
  show "zi_capacity (zi_run (zi_init zdims sz) zops) = sz
      \<or> (\<exists>k. zi_capacity (zi_run (zi_init zdims sz) zops) = 2 ^ k)"
    using zi_run_cap(2) [of "zi_init zdims sz" zops]
    by (simp add: zi_init_def zi_capacity_def qe_size_def qe_init_def)
next
  show "zi_calls_ok (zi_init zdims sz) zops
      \<longrightarrow> zi_size (zi_run (zi_init zdims sz) zops)
            \<le> zi_capacity (zi_run (zi_init zdims sz) zops)"
    using zi_run_cap(3) [of "zi_init zdims sz" zops]
    by (simp add: zi_init_def zi_capacity_def qe_size_def qe_init_def zi_size_def)
next
  show "zi_capacity zst \<le> zi_capacity (zi_run zst zops')" by (rule zi_run_cap(1))
qed

text \<open>
  C4 at a one-dimensional flat index of capacity 2 and a grouped index of initial size 3.
  The flat index, after \<^verbatim>\<open>add\<close> of a, \<^verbatim>\<open>add\<close> of b and c, \<^verbatim>\<open>remove\<close> of a (which
  raises) and \<^verbatim>\<open>clear\<close>, has capacity 4; with the label a alone, \<^verbatim>\<open>compress(1)\<close>
  returns normally and leaves the capacity at 1. The grouped index has capacity 4 after
  \<^verbatim>\<open>add\<close> of four labels.
\<close>

theorem ix_capacity_power_of_two_witness:
  "ix_init 1 2 = Inr ix_two
   \<and> ix_calls_ok ix_two
       [IxAdd [''a''] \<lparr>ncols = 1, rows = [[1]]\<rparr> (Inl (- 1)) False,
        IxAdd [''b'', ''c''] \<lparr>ncols = 1, rows = [[2], [3]]\<rparr> (Inl (- 1)) False,
        IxRemove [''a''], IxClear]
   \<and> ix_max_size (ix_run ix_two
       [IxAdd [''a''] \<lparr>ncols = 1, rows = [[1]]\<rparr> (Inl (- 1)) False,
        IxAdd [''b'', ''c''] \<lparr>ncols = 1, rows = [[2], [3]]\<rparr> (Inl (- 1)) False,
        IxRemove [''a''], IxClear]) = 4
   \<and> ix_size (ix_run ix_two
       [IxAdd [''a''] \<lparr>ncols = 1, rows = [[1]]\<rparr> (Inl (- 1)) False,
        IxAdd [''b'', ''c''] \<lparr>ncols = 1, rows = [[2], [3]]\<rparr> (Inl (- 1)) False,
        IxRemove [''a''], IxClear]) \<le> 4
   \<and> ix_max_size ix_two \<le> 4
   \<and> 0 < ix_size ix_one
   \<and> ix_max_size (snd (ix_compress ix_one 1)) = 1
   \<and> zi_calls_ok (zi_init 2 3 :: (string, string) zi_index)
       [ZiAdd [''a'', ''b'', ''c'', ''d'']
          \<lparr>ncols = 2, rows = [[1, 0], [1, 0], [1, 0], [1, 0]]\<rparr> (One ''g'') False]
   \<and> zi_capacity (zi_init 2 3 :: (string, string) zi_index) = 3
   \<and> zi_capacity (zi_run (zi_init 2 3 :: (string, string) zi_index)
       [ZiAdd [''a'', ''b'', ''c'', ''d'']
          \<lparr>ncols = 2, rows = [[1, 0], [1, 0], [1, 0], [1, 0]]\<rparr> (One ''g'') False]) = 4
   \<and> zi_size (zi_run (zi_init 2 3 :: (string, string) zi_index)
       [ZiAdd [''a'', ''b'', ''c'', ''d'']
          \<lparr>ncols = 2, rows = [[1, 0], [1, 0], [1, 0], [1, 0]]\<rparr> (One ''g'') False]) \<le> 4"
proof -
  let ?ops = "[IxAdd [''a''] \<lparr>ncols = 1, rows = [[1]]\<rparr> (Inl (- 1)) False,
        IxAdd [''b'', ''c''] \<lparr>ncols = 1, rows = [[2], [3]]\<rparr> (Inl (- 1)) False,
        IxRemove [''a''], IxClear]"
  let ?zero = "zi_init 2 3 :: (string, string) zi_index"
  let ?zops = "[ZiAdd [''a'', ''b'', ''c'', ''d'']
          \<lparr>ncols = 2, rows = [[1, 0], [1, 0], [1, 0], [1, 0]]\<rparr> (One ''g'') False]"
  have h1: "ix_init 1 2 = Inr ix_two"
    by (simp add: ix_init_def ix_two_def) (simp add: numeral_2_eq_2)
  have s1: "ix_add ix_two [''a''] \<lparr>ncols = 1, rows = [[1]]\<rparr> (Inl (- 1)) False = (None, ix_one)"
    by (simp add: ix_two_def ix_one_def ix_eval)
  have s2: "ix_add ix_one [''b'', ''c''] \<lparr>ncols = 1, rows = [[2], [3]]\<rparr> (Inl (- 1)) False
      = (None, \<lparr>ix_max_size = 4, ix_dims = 1, ix_labels = [''a'', ''b'', ''c''],
                ix_values = [[1], [2], [3], [0]], ix_groups = [- 1, - 1, - 1, 0]\<rparr>)"
    by (simp add: ix_one_def ix_eval)
  have s3: "ix_remove \<lparr>ix_max_size = 4, ix_dims = 1, ix_labels = [''a'', ''b'', ''c''],
                ix_values = [[1], [2], [3], [0]], ix_groups = [- 1, - 1, - 1, 0]\<rparr> [''a'']
      = (Some IndexError, \<lparr>ix_max_size = 4, ix_dims = 1, ix_labels = [''b'', ''c''],
                ix_values = [[3], [2], [3], [0]], ix_groups = [- 1, - 1, - 1, 0]\<rparr>)"
    by (simp add: ix_eval)
  have run: "ix_run ix_two ?ops
      = \<lparr>ix_max_size = 4, ix_dims = 1, ix_labels = [],
         ix_values = [[3], [2], [3], [0]], ix_groups = [- 1, - 1, - 1, 0]\<rparr>"
    by (simp only: ix_run.simps ix_apply.simps s1 s2 s3 snd_conv) (simp add: ix_clear_def)
  have h2: "ix_calls_ok ix_two ?ops"
    by (simp only: ix_calls_ok.simps ix_apply.simps s1 s2 s3 snd_conv ix_op.case)
       (simp add: ix_two_def ix_one_def)
  have h3: "0 < ix_size ix_one"
    by (simp add: ix_size_def ix_one_def)
  have np: "next_power_of_2 (int (ix_size ix_one)) = Inr 1"
    by (simp add: ix_size_def ix_one_def next_power_of_2_numerals)
  have z1: "zi_run ?zero ?zops
      = \<lparr>zi_labels = [''a'', ''b'', ''c'', ''d''],
         zi_labels_set = {''a'', ''b'', ''c'', ''d''}, zi_grpids = [(''g'', 0)],
         zi_values = \<lparr>qe_dims = 2, qe_raw = [[1, 0], [1, 0], [1, 0], [1, 0]]\<rparr>,
         zi_groups = [0, 0, 0, 0]\<rparr>"
    by (simp add: zi_eval)
  have h4: "zi_calls_ok ?zero ?zops"
    by (simp add: zi_init_def)
  have h5: "zi_capacity ?zero = 3"
    by (simp add: zi_capacity_def zi_eval)
  note inst = ix_capacity_power_of_two [of 1 2 ix_two ?ops ix_two ?ops ix_one 1 2 3 ?zops ?zero ?zops]
  have a: "ix_size (ix_run ix_two ?ops) \<le> ix_max_size (ix_run ix_two ?ops)"
    using inst h1 h2 by blast
  have b: "ix_max_size ix_two \<le> ix_max_size (ix_run ix_two ?ops)"
    using inst by blast
  have c: "int (ix_max_size (snd (ix_compress ix_one 1))) = min (int (ix_max_size ix_one)) (max 1 1)"
    using inst h3 np by auto
  have d: "zi_size (zi_run ?zero ?zops) \<le> zi_capacity (zi_run ?zero ?zops)"
    using inst h4 by blast
  have m: "ix_max_size (ix_run ix_two ?ops) = 4" unfolding run by simp
  have zc: "zi_capacity (zi_run ?zero ?zops) = 4"
    unfolding z1 by (simp add: zi_capacity_def qe_size_def)
  have c': "ix_max_size (snd (ix_compress ix_one 1)) = 1"
    using c by (simp add: ix_one_def)
  show ?thesis
    using h1 h2 h3 h4 h5 a b c' d unfolding m zc by simp
qed

text \<open>
  C4 as stated fails in three places. \<^verbatim>\<open>compress(1024)\<close> on a flat index of capacity
  2 holding one label leaves the capacity at 2, not at
  \<open>max(1024, next_power_of_2(1)) = 1024\<close>, because of the guard
  \<^verbatim>\<open>if size < self.max_size\<close>. \<^verbatim>\<open>add(['a', 'a', 'a'], ...)\<close> on the fresh flat index
  of capacity 2 extends \<^verbatim>\<open>labels\<close> by three entries after sizing the index for one,
  raises at the assignment of three rows to one, and leaves \<^verbatim>\<open>size()\<close> at 3 with the
  capacity at 2. And a grouped index created with size 3 still has capacity 3, which is
  not a power of two, after an \<^verbatim>\<open>add\<close>.
\<close>

theorem capacity_not_as_claimed:
  "ix_run ix_two [IxAdd [''a''] \<lparr>ncols = 1, rows = [[1]]\<rparr> (Inl (- 1)) False] = ix_one
   \<and> next_power_of_2 (int (ix_size ix_one)) = Inr 1
   \<and> ix_compress ix_one 1024 = (None, ix_one)
   \<and> ix_max_size ix_one = 2
   \<and> int (ix_max_size (snd (ix_compress ix_one 1024))) \<noteq> max 1024 (int 1)
   \<and> fst (ix_add ix_two [''a'', ''a'', ''a''] \<lparr>ncols = 1, rows = [[1], [2], [3]]\<rparr>
            (Inl (- 1)) False) = Some RuntimeError
   \<and> ix_size (ix_run ix_two
       [IxAdd [''a'', ''a'', ''a''] \<lparr>ncols = 1, rows = [[1], [2], [3]]\<rparr> (Inl (- 1)) False]) = 3
   \<and> ix_max_size (ix_run ix_two
       [IxAdd [''a'', ''a'', ''a''] \<lparr>ncols = 1, rows = [[1], [2], [3]]\<rparr> (Inl (- 1)) False]) = 2
   \<and> zi_add (zi_init 2 3 :: (string, string) zi_index) [''a''] \<lparr>ncols = 2, rows = [[1, 0]]\<rparr>
         (One ''g'') False
       = (None, \<lparr>zi_labels = [''a''], zi_labels_set = {''a''}, zi_grpids = [(''g'', 0)],
                 zi_values = \<lparr>qe_dims = 2, qe_raw = [[1, 0], [0, 0], [0, 0]]\<rparr>,
                 zi_groups = [0, 0, 0]\<rparr>)
   \<and> zi_capacity (snd (zi_add (zi_init 2 3 :: (string, string) zi_index) [''a'']
         \<lparr>ncols = 2, rows = [[1, 0]]\<rparr> (One ''g'') False)) = 3"
proof -
  have s1: "ix_add ix_two [''a''] \<lparr>ncols = 1, rows = [[1]]\<rparr> (Inl (- 1)) False = (None, ix_one)"
    by (simp add: ix_two_def ix_one_def ix_eval)
  have np: "next_power_of_2 (int (ix_size ix_one)) = Inr 1"
    by (simp add: ix_size_def ix_one_def next_power_of_2_numerals)
  have c: "ix_compress ix_one 1024 = (None, ix_one)"
    by (simp add: ix_compress_def np) (simp add: ix_one_def)
  have d: "ix_add ix_two [''a'', ''a'', ''a''] \<lparr>ncols = 1, rows = [[1], [2], [3]]\<rparr> (Inl (- 1)) False
      = (Some RuntimeError, \<lparr>ix_max_size = 2, ix_dims = 1, ix_labels = [''a'', ''a'', ''a''],
           ix_values = [[0], [0]], ix_groups = [0, 0]\<rparr>)"
    by (simp add: ix_two_def ix_eval)
  have z: "zi_add (zi_init 2 3 :: (string, string) zi_index) [''a''] \<lparr>ncols = 2, rows = [[1, 0]]\<rparr>
         (One ''g'') False
       = (None, \<lparr>zi_labels = [''a''], zi_labels_set = {''a''}, zi_grpids = [(''g'', 0)],
                 zi_values = \<lparr>qe_dims = 2, qe_raw = [[1, 0], [0, 0], [0, 0]]\<rparr>,
                 zi_groups = [0, 0, 0]\<rparr>)"
    by (simp add: zi_eval)
  show ?thesis
    unfolding z
    by (simp only: ix_run.simps ix_apply.simps s1 np c d snd_conv fst_conv)
       (simp add: ix_size_def zi_capacity_def qe_size_def ix_one_def)
qed

text \<open>
  C10. On an index with \<^verbatim>\<open>size() == 0\<close>, \<^verbatim>\<open>compress\<close> raises the \<^verbatim>\<open>ValueError\<close>
  of \<^verbatim>\<open>log2(0)\<close> and changes nothing, whatever \<^verbatim>\<open>min_size\<close> is.
\<close>

theorem ix_compress_empty_raises:
  "ix_size idx = 0 \<Longrightarrow> ix_compress idx min_size = (Some ValueError, idx)"
  by (simp add: ix_compress_def next_power_of_2_def)


text \<open>
  C10 at the empty index of capacity 2: \<^verbatim>\<open>compress(1024)\<close> raises.
\<close>

theorem ix_compress_empty_raises_witness:
  "ix_size \<lparr>ix_max_size = 2, ix_dims = 1, ix_labels = ([] :: string list),
       ix_values = [[0], [0]], ix_groups = [0, 0]\<rparr> = 0
   \<and> ix_compress \<lparr>ix_max_size = 2, ix_dims = 1, ix_labels = ([] :: string list),
       ix_values = [[0], [0]], ix_groups = [0, 0]\<rparr> 1024
     = (Some ValueError, \<lparr>ix_max_size = 2, ix_dims = 1, ix_labels = [],
       ix_values = [[0], [0]], ix_groups = [0, 0]\<rparr>)"
proof -
  have h: "ix_size \<lparr>ix_max_size = 2, ix_dims = 1, ix_labels = ([] :: string list),
       ix_values = [[0], [0]], ix_groups = [0, 0]\<rparr> = 0"
    by (simp add: ix_size_def)
  show ?thesis
    using h ix_compress_empty_raises [OF h, of 1024] by simp
qed

section \<open>The top-k kernel\<close>

lemma topk_ok_props:
  assumes "topk_ok xs k (vals, indices)"
  shows "length indices = k"
    and "distinct indices"
    and "\<forall>i \<in> set indices. i < length xs"
    and "vals = map (\<lambda>i. xs ! i) indices"
    and "sorted_wrt (\<ge>) vals"
    and "\<forall>t < length xs. t \<notin> set indices \<longrightarrow> (\<forall>s \<in> set indices. xs ! t \<le> xs ! s)"
  using assms by (auto simp: topk_ok_def list_all_iff)

lemma topk_contract_ok:
  assumes "topk_contract topk" and "0 \<le> k" and "k \<le> int (length xs)"
  obtains vals indices where "topk xs k = Inr (vals, indices)"
    and "topk_ok xs (nat k) (vals, indices)"
proof -
  have "\<exists>res. topk xs k = Inr res \<and> topk_ok xs (nat k) res"
    using assms(1) [unfolded topk_contract_def, rule_format, of k xs] assms(2,3) by simp
  then show ?thesis using that by (metis surj_pair)
qed

lemma topk_contract_error:
  assumes "topk_contract topk" and "k < 0 \<or> int (length xs) < k"
  shows "topk xs k = Inl RuntimeError"
  using assms(1) [unfolded topk_contract_def, rule_format, of k xs] assms(2) by simp

lemma topk_by_contract:
  assumes visit: "\<And>n. set (visit n) = {0 ..< n}" "\<And>n. distinct (visit n)"
  shows "topk_contract (topk_by visit)"
  unfolding topk_contract_def
proof (intro allI)
  fix xs :: "real list" and k :: int
  define n where "n = length xs"
  define ranked where "ranked = sort_key (\<lambda>i. - (xs ! i)) (visit n)"
  define indices where "indices = take (nat k) ranked"
  have set_ranked: "set ranked = {0 ..< n}" and dist: "distinct ranked"
    using visit by (simp_all add: ranked_def)
  have len: "length ranked = n"
    using distinct_card [OF dist] set_ranked by simp
  have sorted: "sorted (map (\<lambda>i. - (xs ! i)) ranked)"
    by (simp add: ranked_def)
  have ok: "topk_ok xs (nat k) (map (\<lambda>i. xs ! i) indices, indices)"
    if k: "\<not> (k < 0 \<or> int (length xs) < k)"
  proof -
    have l: "length indices = nat k" using k len by (auto simp: indices_def n_def)
    have d: "distinct indices" using dist by (simp add: indices_def)
    have b: "\<forall>i \<in> set indices. i < length xs"
      using set_take_subset [of "nat k" ranked] set_ranked by (auto simp: indices_def n_def)
    have "sorted (map (\<lambda>i. - (xs ! i)) indices)"
      using sorted unfolding indices_def take_map [symmetric] by (rule sorted_wrt_take)
    then have s: "sorted_wrt (\<ge>) (map (\<lambda>i. xs ! i) indices)"
      by (simp add: sorted_wrt_map)
    have r: "xs ! t \<le> xs ! s" if "t < length xs" "t \<notin> set indices" "s \<in> set indices" for t s
    proof -
      have "t \<in> set (take (nat k) ranked) \<union> set (drop (nat k) ranked)"
        using that(1) set_ranked unfolding set_append [symmetric] by (simp add: n_def)
      then have "t \<in> set (drop (nat k) ranked)"
        using that(2) unfolding indices_def by blast
      moreover have "sorted (map (\<lambda>i. - (xs ! i)) (take (nat k) ranked @ drop (nat k) ranked))"
        using sorted by simp
      ultimately have "- (xs ! s) \<le> - (xs ! t)"
        using that(3) unfolding map_append sorted_append indices_def by auto
      then show ?thesis by simp
    qed
    show ?thesis
      using l d b s r by (auto simp: topk_ok_def list_all_iff)
  qed
  show "if k < 0 \<or> int (length xs) < k then topk_by visit xs k = Inl RuntimeError
        else \<exists>res. topk_by visit xs k = Inr res \<and> topk_ok xs (nat k) res"
    using ok by (auto simp: topk_by_def Let_def indices_def ranked_def n_def)
qed

lemma lowest_first_contract: "topk_contract (topk_by lowest_first)"
  by (rule topk_by_contract) (simp_all add: lowest_first_def)

lemma from_two_contract: "topk_contract (topk_by from_two)"
  by (rule topk_by_contract) (auto simp: from_two_def)

text \<open>Where one entry is larger than all others, every kernel returns it for \<open>k = 1\<close>.\<close>

lemma topk_single_winner:
  assumes "topk_contract topk" and "w < length xs"
    and "\<forall>t < length xs. t \<noteq> w \<longrightarrow> xs ! t < xs ! w"
  shows "topk xs 1 = Inr ([xs ! w], [w])"
proof -
  have "(1 :: int) \<le> int (length xs)" using assms(2) by simp
  then obtain vals indices where res: "topk xs 1 = Inr (vals, indices)"
    and ok: "topk_ok xs (nat 1) (vals, indices)"
    using topk_contract_ok [OF assms(1), of 1 xs] by auto
  note p = topk_ok_props [OF ok]
  from p(1) obtain i where i: "indices = [i]"
    by (cases indices) auto
  have "i = w"
  proof (rule ccontr)
    assume "i \<noteq> w"
    then have "w \<notin> set indices" by (simp add: i)
    then have "xs ! w \<le> xs ! i" using p(6) assms(2) by (simp add: i)
    moreover have "i < length xs" using p(3) by (simp add: i)
    ultimately show False using assms(3) \<open>i \<noteq> w\<close> by fastforce
  qed
  then show ?thesis using res p(4) i by simp
qed

section \<open>Evaluating the example inputs\<close>

lemma zi_abc_eq:
  "zi_abc = \<lparr>zi_labels = [''a'', ''b'', ''c''], zi_labels_set = {''a'', ''b'', ''c''},
             zi_grpids = [(''g'', 0)],
             zi_values = \<lparr>qe_dims = 2, qe_raw = [[1, 0], [0, 1], [1, 1], [0, 0]]\<rparr>,
             zi_groups = [0, 0, 0, 0]\<rparr>"
  by (simp add: zi_abc_def zi_eval)

lemma zi_xy_eq:
  "zi_xy = \<lparr>zi_labels = [''x'', ''y''], zi_labels_set = {''x'', ''y''},
            zi_grpids = [(''g'', 0)],
            zi_values = \<lparr>qe_dims = 2, qe_raw = [[1, 0], [0, 1], [0, 0], [0, 0]]\<rparr>,
            zi_groups = [0, 0, 0, 0]\<rparr>"
  by (simp add: zi_xy_def zi_eval)

lemma ix_abc_eq:
  "ix_abc = \<lparr>ix_max_size = 4, ix_dims = 2, ix_labels = [''a'', ''b'', ''c''],
             ix_values = [[1, 0], [0, 1], [1, 1], [0, 0]],
             ix_groups = [- 1, - 1, - 1, 0]\<rparr>"
  by (simp add: ix_abc_def ix_eval)

lemma zi_abc_remove_a:
  "zi_remove zi_abc [''a''] =
     (None, \<lparr>zi_labels = [''b'', ''c''], zi_labels_set = {''a'', ''b'', ''c''},
             zi_grpids = [(''g'', 0)],
             zi_values = \<lparr>qe_dims = 2, qe_raw = [[0, 0], [0, 1], [1, 1], [0, 0]]\<rparr>,
             zi_groups = [0, 0, 0, 0]\<rparr>)"
  by (simp add: zi_abc_eq zi_eval)

lemma ix_abc_remove_a:
  "ix_remove ix_abc [''a''] =
     (Some IndexError, \<lparr>ix_max_size = 4, ix_dims = 2, ix_labels = [''b'', ''c''],
             ix_values = [[1, 1], [0, 1], [1, 1], [0, 0]],
             ix_groups = [- 1, - 1, - 1, 0]\<rparr>)"
  by (simp add: ix_abc_eq ix_eval)

text \<open>
  C3. In the index holding a, b, c with the vectors \<open>[1,0]\<close>, \<open>[0,1]\<close>, \<open>[1,1]\<close>,
  \<^verbatim>\<open>remove(['a'])\<close> returns normally, a is gone and the size is 2, but
  \<^verbatim>\<open>labels.pop(idx)\<close> has moved b and c one position down while only row 0 was
  rewritten, from the unoccupied row at position \<^verbatim>\<open>size\<close>: \<^verbatim>\<open>get\<close> now returns the
  old vector of b for c, and for b the unoccupied row that was at position 3. In index.py the same call copies
  the last occupied row to position 0, leaves b with the vector of c and c with the vector
  of b, and then raises \<^verbatim>\<open>IndexError\<close> at \<^verbatim>\<open>self.groups[self.size(),:]\<close>.
\<close>

theorem zi_remove_moves_vectors:
  "zi_get zi_abc [''b'', ''c''] = Inr [[0, 1], [1, 1]]
   \<and> fst (zi_remove zi_abc [''a'']) = None
   \<and> \<not> zi_contains (snd (zi_remove zi_abc [''a''])) ''a''
   \<and> zi_size (snd (zi_remove zi_abc [''a''])) = 2
   \<and> zi_get (snd (zi_remove zi_abc [''a''])) [''c''] = Inr [[0, 1]]
   \<and> zi_get (snd (zi_remove zi_abc [''a''])) [''b''] = Inr [qe_raw (zi_values zi_abc) ! 3]
   \<and> fst (ix_remove ix_abc [''a'']) = Some IndexError
   \<and> ix_labels (snd (ix_remove ix_abc [''a''])) = [''b'', ''c'']
   \<and> take 2 (ix_values (snd (ix_remove ix_abc [''a'']))) = [[1, 1], [0, 1]]"
  by (simp add: zi_abc_remove_a ix_abc_remove_a)
     (simp add: zi_abc_eq zi_get_def zi_contains_def zi_size_def index_get_def)

lemma hd_ab_eq:
  "hd_ab = \<lparr>hd_max = 4,
        hd_txt = \<lparr>fl_max = 4, fl_pos = 2, fl_data = [(''first'', ''a''), (''second'', ''b'')]\<rparr>,
        hd_age = [0, 0, - 1, - 1],
        hd_idx =
          \<lparr>zi_labels = [0, 1], zi_labels_set = {1, 0}, zi_grpids = [((), 0)],
             zi_values = \<lparr>qe_dims = 2, qe_raw = [[1, 0], [0, 1], [0, 0], [0, 0]]\<rparr>,
             zi_groups = [0, 0, 0, 0]\<rparr>\<rparr>"
proof -
  have init: "(hd_init 2 4 :: string HistoryDatabase) =
      \<lparr>hd_max = 4, hd_txt = \<lparr>fl_max = 4, fl_pos = 0, fl_data = []\<rparr>,
       hd_age = [- 1, - 1, - 1, - 1],
       hd_idx = \<lparr>zi_labels = [], zi_labels_set = {}, zi_grpids = [],
            zi_values = \<lparr>qe_dims = 2, qe_raw = [[0, 0], [0, 0], [0, 0], [0, 0]]\<rparr>,
            zi_groups = [0, 0, 0, 0]\<rparr>\<rparr>"
    by (simp add: hd_init_def FiniteList_init_def zi_eval)
  have a: "hd_append embed_ab (hd_init 2 4) ''a'' ''first'' =
     (None, \<lparr>hd_max = 4,
        hd_txt = \<lparr>fl_max = 4, fl_pos = 1, fl_data = [(''first'', ''a'')]\<rparr>,
        hd_age = [0, - 1, - 1, - 1],
        hd_idx = \<lparr>zi_labels = [0], zi_labels_set = {0}, zi_grpids = [((), 0)],
             zi_values = \<lparr>qe_dims = 2, qe_raw = [[1, 0], [0, 0], [0, 0], [0, 0]]\<rparr>,
             zi_groups = [0, 0, 0, 0]\<rparr>\<rparr>)"
    unfolding init by (simp add: hd_append_def embed_ab_def append_fl_def len_def zi_eval)
  have b: "hd_append embed_ab \<lparr>hd_max = 4,
        hd_txt = \<lparr>fl_max = 4, fl_pos = 1, fl_data = [(''first'', ''a'')]\<rparr>,
        hd_age = [0, - 1, - 1, - 1],
        hd_idx = \<lparr>zi_labels = [0], zi_labels_set = {0}, zi_grpids = [((), 0)],
             zi_values = \<lparr>qe_dims = 2, qe_raw = [[1, 0], [0, 0], [0, 0], [0, 0]]\<rparr>,
             zi_groups = [0, 0, 0, 0]\<rparr>\<rparr> ''b'' ''second'' =
     (None, \<lparr>hd_max = 4,
        hd_txt = \<lparr>fl_max = 4, fl_pos = 2, fl_data = [(''first'', ''a''), (''second'', ''b'')]\<rparr>,
        hd_age = [0, 0, - 1, - 1],
        hd_idx =
          \<lparr>zi_labels = [0, 1], zi_labels_set = {1, 0}, zi_grpids = [((), 0)],
             zi_values = \<lparr>qe_dims = 2, qe_raw = [[1, 0], [0, 1], [0, 0], [0, 0]]\<rparr>,
             zi_groups = [0, 0, 0, 0]\<rparr>\<rparr>)"
    by (simp add: hd_append_def embed_ab_def append_fl_def len_def zi_eval)
  show ?thesis
    by (simp only: hd_ab_def hd_run.simps hd_apply.simps a b snd_conv)
qed

lemmas hd_eval = hd_init_def FiniteList_init_def hd_append_def append_fl_def len_def zi_eval

lemma hd_hello_eq:
  "hd_hello = \<lparr>hd_max = 4,
        hd_txt = \<lparr>fl_max = 4, fl_pos = 1, fl_data = [(''greeting'', ''hello'')]\<rparr>,
        hd_age = [0, - 1, - 1, - 1],
        hd_idx = \<lparr>zi_labels = [0], zi_labels_set = {0}, zi_grpids = [((), 0)],
             zi_values = \<lparr>qe_dims = 2, qe_raw = [[0, 1], [0, 0], [0, 0], [0, 0]]\<rparr>,
             zi_groups = [0, 0, 0, 0]\<rparr>\<rparr>"
  by (simp add: hd_hello_def hd_eval embed_ab_def)

lemma hd_sign_eq:
  "hd_sign = \<lparr>hd_max = 4,
        hd_txt = \<lparr>fl_max = 4, fl_pos = 1, fl_data = [(''first'', ''a'')]\<rparr>,
        hd_age = [0, - 1, - 1, - 1],
        hd_idx = \<lparr>zi_labels = [0], zi_labels_set = {0}, zi_grpids = [((), 0)],
             zi_values = \<lparr>qe_dims = 2, qe_raw = [[1, 0], [0, 0], [0, 0], [0, 0]]\<rparr>,
             zi_groups = [0, 0, 0, 0]\<rparr>\<rparr>"
  by (simp add: hd_sign_def hd_eval embed_sign_def)

lemma hd_zero_eq:
  "hd_zero = \<lparr>hd_max = 4,
        hd_txt = \<lparr>fl_max = 4, fl_pos = 1, fl_data = [(''greeting'', ''hello'')]\<rparr>,
        hd_age = [0, - 1, - 1, - 1],
        hd_idx = \<lparr>zi_labels = [0], zi_labels_set = {0}, zi_grpids = [((), 0)],
             zi_values = \<lparr>qe_dims = 2, qe_raw = [[0, 0], [0, 0], [0, 0], [0, 0]]\<rparr>,
             zi_groups = [0, 0, 0, 0]\<rparr>\<rparr>"
  by (simp add: hd_zero_def hd_eval embed_zero_def Let_def)

lemma hd_ab_sim: "hd_sim embed_ab hd_ab ''a'' (Rate (1/5)) = Inr [1, 0]"
  by (simp add: hd_ab_eq hd_sim_def zi_simil_def qe_similarity_def embed_ab_def zi_size_def
        index_get_def broadcast_mul_def dot_def upt_rec)

lemma hd_ab_txt:
  "hd_txt hd_ab = \<lparr>fl_max = 4, fl_pos = 2, fl_data = [(''first'', ''a''), (''second'', ''b'')]\<rparr>"
  "hd_len hd_ab = 2"
  by (simp_all add: hd_ab_eq hd_len_def len_def)

text \<open>
  C1. After \<^verbatim>\<open>append('a')\<close> and \<^verbatim>\<open>append('b')\<close> the query a scores 1 at slot 0 and 0
  at slot 1, so with \<open>k = 1\<close> the winning slot is 0 for every top-k kernel, and that is
  where the pair of a is stored.
  \<^verbatim>\<open>self.txt[idxs]\<close> reads the winning slot as a backward index from the write
  cursor, \<open>(pos - 1 - 0) mod size = 1\<close>, and returns the pair of b.
\<close>

theorem hd_search_returns_other_entry:
  "topk_contract topk \<Longrightarrow>
   hd_sim embed_ab hd_ab ''a'' (Rate (1/5)) = Inr [1, 0]
   \<and> fl_data (hd_txt hd_ab) ! 0 = (''first'', ''a'')
   \<and> hd_search topk embed_ab hd_ab ''a'' 1 (Rate (1/5)) 0 = Inr [(''second'', ''b'')]"
proof -
  assume "topk_contract topk"
  then have "topk [1, 0] 1 = Inr ([[1, 0] ! 0], [0])"
    by (rule topk_single_winner) (simp_all add: nth_Cons split: nat.splits)
  then show ?thesis
    by (simp add: hd_ab_sim hd_ab_txt hd_search_def getitem_int_def len_def)
qed

text \<open>
  C1 with the kernel that takes the lowest position first.
\<close>

theorem hd_search_returns_other_entry_witness:
  "topk_contract (topk_by lowest_first)
   \<and> hd_sim embed_ab hd_ab ''a'' (Rate (1/5)) = Inr [1, 0]
   \<and> fl_data (hd_txt hd_ab) ! 0 = (''first'', ''a'')
   \<and> hd_search (topk_by lowest_first) embed_ab hd_ab ''a'' 1 (Rate (1/5)) 0
       = Inr [(''second'', ''b'')]"
  using hd_search_returns_other_entry [OF lowest_first_contract] lowest_first_contract
  by simp

section \<open>The label list and the label set\<close>

lemma zi_update_exist_labels:
  assumes "zi_update_exist idx labs vecs gids exist = (r, idx1)"
  shows "zi_labels idx1 = zi_labels idx" and "zi_labels_set idx1 = zi_labels_set idx"
  using assms
  by (auto simp: zi_update_exist_def Let_def split: sum.splits prod.splits)

lemma zi_update_exist_sub:
  assumes "zi_update_exist idx labs vecs gids exist = (r, idx1)"
    and "set (zi_labels idx) \<subseteq> zi_labels_set idx"
  shows "set (zi_labels idx1) \<subseteq> zi_labels_set idx1"
  using zi_update_exist_labels [OF assms(1)] assms(2) by simp

lemma zi_expand_labels:
  assumes "zi_expand idx n p = (r, idx1)"
  shows "zi_labels idx1 = zi_labels idx" and "zi_labels_set idx1 = zi_labels_set idx"
  using assms
  by (auto simp: zi_expand_def split: sum.splits if_splits)

lemma zi_append_novel_labels:
  assumes "zi_append_novel idx labs vecs gids novel = (r, idx1)"
    and "set (zi_labels idx) \<subseteq> zi_labels_set idx"
  shows "set (zi_labels idx1) \<subseteq> zi_labels_set idx1"
proof -
  obtain xlocs xlabs where nl: "novel_locs novel 0 labs = (xlocs, xlabs)"
    by (cases "novel_locs novel 0 labs")
  obtain r0 idx0 where ex: "zi_expand idx (zi_size idx + card novel) True = (r0, idx0)"
    by (cases "zi_expand idx (zi_size idx + card novel) True")
  have sub0: "set (zi_labels idx0) \<subseteq> zi_labels_set idx0"
    using zi_expand_labels [OF ex] assms(2) by simp
  obtain r2 idx2 where oe: "orderedset_extend idx0 xlabs = (r2, idx2)"
    by (cases "orderedset_extend idx0 xlabs")
  have sub2: "set (zi_labels idx2) \<subseteq> zi_labels_set idx2"
    using oe sub0 by (auto simp: orderedset_extend_def split: if_splits)
  have "(zi_labels idx1 = zi_labels idx0 \<and> zi_labels_set idx1 = zi_labels_set idx0)
      \<or> (zi_labels idx1 = zi_labels idx2 \<and> zi_labels_set idx1 = zi_labels_set idx2)"
    using assms(1) nl ex oe
    by (auto simp: zi_append_novel_def Let_def split: sum.splits option.splits)
  then show ?thesis using sub0 sub2 by auto
qed

lemma zi_add_labels:
  assumes "zi_add idx labs vecs groups strict = (r, idx1)"
    and "set (zi_labels idx) \<subseteq> zi_labels_set idx"
  shows "set (zi_labels idx1) \<subseteq> zi_labels_set idx1"
proof -
  define idxg where "idxg = idx\<lparr>zi_grpids := indexdict_add (zi_grpids idx) groups\<rparr>"
  have subg: "set (zi_labels idxg) \<subseteq> zi_labels_set idxg"
    using assms(2) by (simp add: idxg_def)
  define exist where "exist = zi_labels_set idx \<inter> set labs"
  define novel where "novel = set labs - exist"
  have "idx1 = idx \<or> idx1 = idxg \<or>
    (\<exists>gids r2 idx2.
       (idx2 = idxg \<or> zi_update_exist idxg labs vecs gids exist = (r2, idx2)) \<and>
       (idx1 = idx2 \<or> zi_append_novel idx2 labs vecs gids novel = (r, idx1)))"
    using assms(1)
    unfolding zi_add_def Let_def idxg_def [symmetric] exist_def [symmetric] novel_def [symmetric]
    by (auto split: if_splits sum.splits option.splits prod.splits)
  then consider "idx1 = idx" | "idx1 = idxg"
    | gids r2 idx2 where
        "idx2 = idxg \<or> zi_update_exist idxg labs vecs gids exist = (r2, idx2)"
        "idx1 = idx2 \<or> zi_append_novel idx2 labs vecs gids novel = (r, idx1)"
    by blast
  then show ?thesis
  proof cases
    case 1
    then show ?thesis using assms(2) by simp
  next
    case 2
    then show ?thesis using subg by simp
  next
    case 3
    have sub2: "set (zi_labels idx2) \<subseteq> zi_labels_set idx2"
      using 3(1) subg zi_update_exist_sub by blast
    show ?thesis
      using 3(2) sub2 zi_append_novel_labels by blast
  qed
qed


lemma set_list_pop: "set (list_pop xs i) \<subseteq> set xs"
  using set_take_subset [of i xs] set_drop_subset [of "Suc i" xs]
  by (auto simp: list_pop_def)

lemma zi_remove_loop_labels:
  assumes "zi_remove_loop sz idx labs = (r, idx1)"
  shows "set (zi_labels idx1) \<subseteq> set (zi_labels idx) \<and> zi_labels_set idx1 = zi_labels_set idx"
  using assms
proof (induction labs arbitrary: idx)
  case Nil
  then show ?case by simp
next
  case (Cons lab labs)
  show ?case
  proof (cases "list_index (zi_labels idx) lab")
    case (Inl e)
    then show ?thesis using Cons.prems by simp
  next
    case (Inr i)
    define idxp where "idxp = idx\<lparr>zi_labels := list_pop (zi_labels idx) i\<rparr>"
    have p: "set (zi_labels idxp) \<subseteq> set (zi_labels idx)" "zi_labels_set idxp = zi_labels_set idx"
      using set_list_pop [of "zi_labels idx" i] by (simp_all add: idxp_def)
    have "(zi_labels idx1 = zi_labels idxp \<and> zi_labels_set idx1 = zi_labels_set idxp)
        \<or> (\<exists>idx3. zi_labels idx3 = zi_labels idxp \<and> zi_labels_set idx3 = zi_labels_set idxp
              \<and> zi_remove_loop sz idx3 labs = (r, idx1))"
      using Cons.prems Inr unfolding idxp_def
      by (auto simp: Let_def split: sum.splits)
    then show ?thesis
    proof
      assume "zi_labels idx1 = zi_labels idxp \<and> zi_labels_set idx1 = zi_labels_set idxp"
      then show ?thesis using p by simp
    next
      assume "\<exists>idx3. zi_labels idx3 = zi_labels idxp \<and> zi_labels_set idx3 = zi_labels_set idxp
              \<and> zi_remove_loop sz idx3 labs = (r, idx1)"
      then obtain idx3 where 3: "zi_labels idx3 = zi_labels idxp"
          "zi_labels_set idx3 = zi_labels_set idxp" "zi_remove_loop sz idx3 labs = (r, idx1)"
        by blast
      from Cons.IH [OF 3(3)] 3(1,2) p show ?thesis by auto
    qed
  qed
qed

lemma zi_apply_labels:
  assumes "set (zi_labels idx) \<subseteq> zi_labels_set idx"
  shows "set (zi_labels (snd (zi_apply idx c))) \<subseteq> zi_labels_set (snd (zi_apply idx c))"
proof (cases c)
  case (ZiAdd labs vecs groups strict)
  then show ?thesis
    using zi_add_labels [OF _ assms, of labs vecs groups strict]
    by (cases "zi_add idx labs vecs groups strict") simp
next
  case (ZiRemove labs)
  obtain r idx1 where rm: "zi_remove idx labs = (r, idx1)"
    by (cases "zi_remove idx labs")
  then show ?thesis
    using ZiRemove assms zi_remove_loop_labels [of "zi_size idx" idx _ r idx1]
    by (auto simp: zi_remove_def Let_def)
next
  case (ZiClear zero)
  then show ?thesis by (simp add: zi_clear_def Let_def)
qed

lemma zi_run_labels:
  assumes "set (zi_labels idx) \<subseteq> zi_labels_set idx"
  shows "set (zi_labels (zi_run idx cs)) \<subseteq> zi_labels_set (zi_run idx cs)"
  using assms
proof (induction cs arbitrary: idx)
  case Nil
  then show ?case by simp
next
  case (Cons c cs)
  show ?case
    using Cons.IH [OF zi_apply_labels [OF Cons.prems]] by simp
qed

lemma zi_init_labels: "set (zi_labels (zi_init dims sz)) \<subseteq> zi_labels_set (zi_init dims sz)"
  by (simp add: zi_init_def)

text \<open>
  C5, as the code has it. A strict \<^verbatim>\<open>add\<close> that supplies a label \<open>l\<close> already in the
  index raises and leaves the whole index as it was, in ziggy/index.py (on any index
  reached from a fresh one by \<^verbatim>\<open>add\<close>, \<^verbatim>\<open>remove\<close> and \<^verbatim>\<open>clear\<close> calls) and in index.py.
  The exception is the one of the strict mode when the vectors pass the two shape
  assertions, which come first; otherwise it is their \<^verbatim>\<open>AssertionError\<close>.
\<close>

theorem add_strict_all_or_nothing:
  "strict \<and> l \<in> set labs \<longrightarrow>
     (zi_contains (zi_run (zi_init dims sz) ops) l \<longrightarrow>
        zi_add (zi_run (zi_init dims sz) ops) labs vecs groups strict
          = (Some (if length (rows vecs) = length labs \<and>
                      ncols vecs = qe_dims (zi_values (zi_run (zi_init dims sz) ops))
                   then StrictAddError else AssertionError),
             zi_run (zi_init dims sz) ops)) \<and>
     (l \<in> set (ix_labels idx) \<longrightarrow>
        ix_add idx labs vecs groups' strict
          = (Some (if length (rows vecs) = length labs \<and> ncols vecs = ix_dims idx
                   then StrictAddError else AssertionError),
             idx))"
proof (intro impI conjI)
  assume h: "strict \<and> l \<in> set labs"
  let ?idx = "zi_run (zi_init dims sz) ops"
  assume "zi_contains ?idx l"
  then have "l \<in> zi_labels_set ?idx"
    using zi_run_labels [OF zi_init_labels, of dims sz ops] by (auto simp: zi_contains_def)
  with h have ne: "zi_labels_set ?idx \<inter> set labs \<noteq> {}" by blast
  show "zi_add ?idx labs vecs groups strict
          = (Some (if length (rows vecs) = length labs \<and> ncols vecs = qe_dims (zi_values ?idx)
                   then StrictAddError else AssertionError), ?idx)"
    using h ne by (simp add: zi_add_def Let_def)
next
  assume h: "strict \<and> l \<in> set labs" and "l \<in> set (ix_labels idx)"
  then have ne: "set labs \<inter> set (ix_labels idx) \<noteq> {}" by blast
  show "ix_add idx labs vecs groups' strict
          = (Some (if length (rows vecs) = length labs \<and> ncols vecs = ix_dims idx
                   then StrictAddError else AssertionError), idx)"
    using h ne by (simp add: ix_add_def Let_def)
qed

text \<open>
  C5 at the two example indexes: a strict \<^verbatim>\<open>add\<close> of the labels a and d, where a is
  present, with vectors of the right shape and with vectors of dimension 3.
\<close>

theorem add_strict_all_or_nothing_witness:
  "(True \<and> ''a'' \<in> set [''a'', ''d''])
   \<and> zi_contains zi_abc ''a''
   \<and> ''a'' \<in> set (ix_labels ix_abc)
   \<and> zi_add zi_abc [''a'', ''d''] \<lparr>ncols = 2, rows = [[5, 5], [6, 6]]\<rparr> (One ''g'') True
       = (Some StrictAddError, zi_abc)
   \<and> ix_add ix_abc [''a'', ''d''] \<lparr>ncols = 2, rows = [[5, 5], [6, 6]]\<rparr> (Inl (- 1)) True
       = (Some StrictAddError, ix_abc)
   \<and> zi_add zi_abc [''a'', ''d''] \<lparr>ncols = 3, rows = [[5, 5, 5], [6, 6, 6]]\<rparr> (One ''g'') True
       = (Some AssertionError, zi_abc)
   \<and> ix_add ix_abc [''a'', ''d''] \<lparr>ncols = 3, rows = [[5, 5, 5], [6, 6, 6]]\<rparr> (Inl (- 1)) True
       = (Some AssertionError, ix_abc)"
proof -
  let ?ops = "[ZiAdd [''a'', ''b'', ''c''] \<lparr>ncols = 2, rows = [[1, 0], [0, 1], [1, 1]]\<rparr>
                 (One ''g'') False]"
  let ?vecs = "\<lparr>ncols = 2, rows = [[5, 5], [6, 6]]\<rparr>"
  let ?wide = "\<lparr>ncols = 3, rows = [[5, 5, 5], [6, 6, 6]]\<rparr>"
  have run: "zi_run (zi_init 2 4) ?ops = zi_abc"
    by (simp add: zi_abc_def)
  have h1: "True \<and> ''a'' \<in> set [''a'', ''d'']" by simp
  have h2: "zi_contains zi_abc ''a''" by (simp add: zi_abc_eq zi_contains_def)
  have h3: "''a'' \<in> set (ix_labels ix_abc)" by (simp add: ix_abc_eq)
  have s1: "length (rows ?vecs) = length [''a'', ''d''] \<and> ncols ?vecs = qe_dims (zi_values zi_abc)"
    "ncols ?wide \<noteq> qe_dims (zi_values zi_abc)"
    by (simp_all add: zi_abc_eq)
  have s2: "length (rows ?vecs) = length [''a'', ''d''] \<and> ncols ?vecs = ix_dims ix_abc"
    "ncols ?wide \<noteq> ix_dims ix_abc"
    by (simp_all add: ix_abc_eq)
  have ok: "zi_add zi_abc [''a'', ''d''] ?vecs (One ''g'') True = (Some StrictAddError, zi_abc)
      \<and> ix_add ix_abc [''a'', ''d''] ?vecs (Inl (- 1)) True = (Some StrictAddError, ix_abc)"
    using add_strict_all_or_nothing [of True "''a''" "[''a'', ''d'']" 2 4 ?ops ?vecs
            "One ''g''" ix_abc "Inl (- 1)"]
      h1 h2 h3 s1(1) s2(1)
    unfolding run by simp
  have wide: "zi_add zi_abc [''a'', ''d''] ?wide (One ''g'') True = (Some AssertionError, zi_abc)
      \<and> ix_add ix_abc [''a'', ''d''] ?wide (Inl (- 1)) True = (Some AssertionError, ix_abc)"
    using add_strict_all_or_nothing [of True "''a''" "[''a'', ''d'']" 2 4 ?ops ?wide
            "One ''g''" ix_abc "Inl (- 1)"]
      h1 h2 h3 s1(2) s2(2)
    unfolding run by simp
  show ?thesis
    using h1 h2 h3 ok wide by simp
qed

text \<open>
  C5 as stated fails on the kind of exception: a strict \<^verbatim>\<open>add\<close> of the present label
  a with a vector of dimension 3 fails the assertion \<^verbatim>\<open>dv == d0\<close> before the strict
  mode is looked at. The index is unchanged all the same.
\<close>

theorem add_strict_shape_assertion_first:
  "zi_contains zi_abc ''a''
   \<and> zi_add zi_abc [''a''] \<lparr>ncols = 3, rows = [[1, 2, 3]]\<rparr> (One ''g'') True
       = (Some AssertionError, zi_abc)
   \<and> ix_add ix_abc [''a''] \<lparr>ncols = 3, rows = [[1, 2, 3]]\<rparr> (Inl (- 1)) True
       = (Some AssertionError, ix_abc)"
  by (simp add: zi_abc_eq ix_abc_eq zi_contains_def zi_add_def ix_add_def)

section \<open>Ages in the history database\<close>

lemma hd_append_age:
  "hd_age (snd (hd_append embed' h text meta)) =
     (if fl_pos (hd_txt h) < length (hd_age h) then (hd_age h)[fl_pos (hd_txt h) := 0]
      else hd_age h)"
  by (auto simp: hd_append_def Let_def split: prod.splits option.splits)

lemma hd_append_max: "hd_max (snd (hd_append embed' h text meta)) = hd_max h"
  by (auto simp: hd_append_def Let_def split: prod.splits option.splits)

lemma append_fl_pos:
  "fl_max (snd (append_fl fl item)) = fl_max fl"
  "0 < fl_max fl \<Longrightarrow> fl_pos fl < fl_max fl \<Longrightarrow> fl_pos (snd (append_fl fl item)) < fl_max fl"
  by (auto simp: append_fl_def Let_def)

lemma hd_append_txt:
  "hd_txt (snd (hd_append embed' h text meta)) = hd_txt h
   \<or> hd_txt (snd (hd_append embed' h text meta)) = snd (append_fl (hd_txt h) (meta, text))"
  by (auto simp: hd_append_def Let_def split: prod.splits option.splits)

lemma age_ok_simps [simp]: "age_ok 0" "age_ok (- 1)"
  by (simp_all add: age_ok_def)

lemma hd_init_wf: "hd_wf (hd_init dims maxlen)"
  by (simp add: hd_wf_def hd_init_def FiniteList_init_def list_all_iff)

lemma age_ok_range: "age_ok a \<Longrightarrow> a \<noteq> - 1 \<Longrightarrow> 0 \<le> a \<and> a \<le> 2 ^ 24"
  by (auto simp: age_ok_def Nats_def)

lemma age_step:
  assumes "age_ok a"
  shows "f32 (a + (if 0 \<le> a then 1 else 0))
           = (if a = - 1 then - 1 else if a < 2 ^ 24 then a + 1 else a)"
    and "age_ok (f32 (a + (if 0 \<le> a then 1 else 0)))"
proof -
  have both: "f32 (a + (if 0 \<le> a then 1 else 0))
           = (if a = - 1 then - 1 else if a < 2 ^ 24 then a + 1 else a)
        \<and> age_ok (f32 (a + (if 0 \<le> a then 1 else 0)))"
  proof (cases "a = - 1")
    case True
    have "f32 (- 1) = - 1" using f32_minus [of 1] by simp
    then show ?thesis using True by simp
  next
    case False
    then have "a \<in> \<nat>" and le: "a \<le> 2 ^ 24"
      using assms by (simp_all add: age_ok_def)
    then obtain n where n: "a = real n" by (auto elim: Nats_cases)
    have n24: "n \<le> 2 ^ 24" using le unfolding n by simp
    show ?thesis
    proof (cases "n < 2 ^ 24")
      case True
      then have s: "Suc n \<le> 2 ^ 24" by simp
      have "f32 (real (Suc n)) = real (Suc n)" using s by (rule f32_nat)
      moreover have "real (Suc n) \<le> 2 ^ 24"
        using s by (simp only: of_nat_le_numeral_power_cancel_iff)
      then have "age_ok (real (Suc n))"
        unfolding age_ok_def by (intro disjI2 conjI of_nat_in_Nats)
      moreover have "real n < 2 ^ 24"
        using True by (simp only: of_nat_less_numeral_power_cancel_iff)
      ultimately show ?thesis using n by (simp add: add.commute)
    next
      case False
      then have "n = 2 ^ 24" using n24 by simp
      then have a: "a = 16777216" using n by simp
      show ?thesis using assms unfolding a by (simp add: f32_succ_top)
    qed
  qed
  show "f32 (a + (if 0 \<le> a then 1 else 0))
           = (if a = - 1 then - 1 else if a < 2 ^ 24 then a + 1 else a)"
    by (rule both [THEN conjunct1])
  show "age_ok (f32 (a + (if 0 \<le> a then 1 else 0)))"
    by (rule both [THEN conjunct2])
qed

lemma hd_apply_wf:
  assumes "hd_wf h"
  shows "hd_wf (hd_apply embed' h c)"
proof (cases c)
  case (Append t meta)
  have ages: "list_all age_ok (hd_age (snd (hd_append embed' h t meta)))"
    using assms
    by (auto simp: hd_append_age hd_wf_def list_all_iff
             dest!: set_update_subset_insert [THEN subsetD])
  have cursor: "fl_max (hd_txt (snd (hd_append embed' h t meta))) = hd_max h \<and>
     (0 < hd_max h \<longrightarrow> fl_pos (hd_txt (snd (hd_append embed' h t meta))) < hd_max h)"
    using hd_append_txt [of embed' h t meta] assms append_fl_pos [of "hd_txt h" "(meta, t)"]
    by (auto simp: hd_wf_def)
  show ?thesis
    using Append assms ages cursor by (simp add: hd_wf_def hd_append_age hd_append_max)
next
  case Step
  then show ?thesis using assms by (auto simp: hd_wf_def hd_step_def list_all_iff age_step(2))
next
  case (Search query k disc cutoff)
  then show ?thesis using assms by simp
qed

lemma hd_run_wf: "hd_wf h \<Longrightarrow> hd_wf (hd_run embed' h cs)"
  by (induction cs arbitrary: h) (simp_all add: hd_apply_wf)

lemma hd_apply_written:
  assumes "i < length (hd_age h)" and "0 \<le> hd_age h ! i"
  shows "i < length (hd_age (hd_apply embed' h c)) \<and> 0 \<le> hd_age (hd_apply embed' h c) ! i"
proof (cases c)
  case (Append t meta)
  then show ?thesis using assms by (simp add: hd_append_age nth_list_update)
next
  case Step
  then show ?thesis using assms by (simp add: hd_step_def f32_nonneg)
next
  case (Search query k disc cutoff)
  then show ?thesis using assms by simp
qed

lemma hd_run_written:
  assumes "i < length (hd_age h)" and "0 \<le> hd_age h ! i"
  shows "i < length (hd_age (hd_run embed' h cs)) \<and> 0 \<le> hd_age (hd_run embed' h cs) ! i"
  using assms
proof (induction cs arbitrary: h)
  case Nil
  then show ?case by simp
next
  case (Cons c cs)
  from hd_apply_written [OF Cons.prems, of embed' c] Cons.IH show ?case by simp
qed

lemma hd_run_max: "hd_max (hd_run embed' h cs) = hd_max h"
proof (induction cs arbitrary: h)
  case Nil
  show ?case by simp
next
  case (Cons c cs)
  have "hd_max (hd_apply embed' h c) = hd_max h"
    by (cases c) (simp_all add: hd_append_max hd_step_def)
  then show ?case using Cons.IH by simp
qed

text \<open>The ages after \<open>n\<close> calls of \<^verbatim>\<open>step\<close>: a defined age grows by \<open>n\<close> up to \<open>2^24\<close>.\<close>

lemma hd_age_steps:
  assumes "list_all age_ok (hd_age h)"
  shows "hd_age (hd_run embed' h (replicate n Step))
           = map (\<lambda>a. if 0 \<le> a then min (a + real n) (2 ^ 24) else a) (hd_age h)"
  using assms
proof (induction n arbitrary: h)
  case 0
  have "min a (2 ^ 24) = a" if "a \<in> set (hd_age h)" "0 \<le> a" for a
    using that 0 age_ok_range [of a] by (auto simp: list_all_iff)
  then show ?case by (simp add: map_idI)
next
  case (Suc n)
  have ok: "list_all age_ok (hd_age (hd_step h))"
    using Suc.prems by (simp add: hd_step_def list_all_iff age_step(2))
  have one: "(let b = f32 (a + (if 0 \<le> a then 1 else 0))
              in if 0 \<le> b then min (b + real n) (2 ^ 24) else b)
           = (if 0 \<le> a then min (a + real (Suc n)) (2 ^ 24) else a)"
    if "a \<in> set (hd_age h)" for a
  proof -
    have a: "age_ok a" using that Suc.prems by (simp add: list_all_iff)
    show ?thesis
    proof (cases "a = - 1")
      case True
      then show ?thesis unfolding Let_def age_step(1) [OF a] by simp
    next
      case False
      then have "0 \<le> a" "a \<le> 2 ^ 24" using age_ok_range [OF a] by simp_all
      then show ?thesis unfolding Let_def age_step(1) [OF a] using False by auto
    qed
  qed
  have "hd_age (hd_run embed' h (replicate (Suc n) Step))
      = map (\<lambda>a. if 0 \<le> a then min (a + real n) (2 ^ 24) else a) (hd_age (hd_step h))"
    using Suc.IH [OF ok] by simp
  also have "\<dots> = map (\<lambda>a. if 0 \<le> a then min (a + real (Suc n)) (2 ^ 24) else a) (hd_age h)"
    using one by (simp add: hd_step_def Let_def)
  finally show ?case .
qed

text \<open>
  C8, as the code has it. Let \<open>h\<close> be any state of a history database of capacity
  \<open>maxlen\<close>, reached from the fresh one by \<^verbatim>\<open>append\<close>, \<^verbatim>\<open>step\<close> and \<^verbatim>\<open>search\<close>
  calls. The age of a slot \<open>i\<close> that is not the sentinel \<open>-1\<close> is a whole number from 0
  to \<open>2^24\<close>; \<^verbatim>\<open>step\<close> adds one to it when it is below \<open>2^24\<close> and leaves it at
  \<open>2^24\<close> otherwise, the \<^verbatim>\<open>float32\<close> sum \<open>2^24 + 1\<close> being \<open>2^24\<close>; and the slot
  keeps an age other than the sentinel under every further sequence of calls. \<^verbatim>\<open>step\<close>
  leaves a sentinel slot \<open>j\<close> as it is. \<^verbatim>\<open>append\<close> sets the age of the slot under the
  write cursor to 0 (with capacity 0 there is no such slot and \<^verbatim>\<open>append\<close> raises).
\<close>

theorem hd_age_lifecycle:
  "(i < length (hd_age (hd_run embed' (hd_init dims maxlen) ops0)) \<and>
    hd_age (hd_run embed' (hd_init dims maxlen) ops0) ! i \<noteq> - 1
    \<longrightarrow> hd_age (hd_run embed' (hd_init dims maxlen) ops0) ! i \<in> \<nat>
        \<and> hd_age (hd_run embed' (hd_init dims maxlen) ops0) ! i \<le> 2 ^ 24
        \<and> hd_age (hd_step (hd_run embed' (hd_init dims maxlen) ops0)) ! i
          = (if hd_age (hd_run embed' (hd_init dims maxlen) ops0) ! i < 2 ^ 24
             then hd_age (hd_run embed' (hd_init dims maxlen) ops0) ! i + 1
             else 2 ^ 24)
        \<and> i < length (hd_age (hd_run embed' (hd_run embed' (hd_init dims maxlen) ops0) ops))
        \<and> hd_age (hd_run embed' (hd_run embed' (hd_init dims maxlen) ops0) ops) ! i \<noteq> - 1)
   \<and> (j < length (hd_age (hd_run embed' (hd_init dims maxlen) ops0)) \<and>
      hd_age (hd_run embed' (hd_init dims maxlen) ops0) ! j = - 1
      \<longrightarrow> hd_age (hd_step (hd_run embed' (hd_init dims maxlen) ops0)) ! j = - 1)
   \<and> (0 < maxlen
      \<longrightarrow> fl_pos (hd_txt (hd_run embed' (hd_init dims maxlen) ops0))
            < length (hd_age (hd_run embed' (hd_init dims maxlen) ops0))
        \<and> hd_age (snd (hd_append embed' (hd_run embed' (hd_init dims maxlen) ops0) text meta))
            ! fl_pos (hd_txt (hd_run embed' (hd_init dims maxlen) ops0)) = 0)"
proof -
  define h where "h = hd_run embed' (hd_init dims maxlen) ops0"
  have wf: "hd_wf h"
    unfolding h_def by (rule hd_run_wf [OF hd_init_wf])
  have max: "hd_max h = maxlen"
    by (simp add: h_def hd_run_max hd_init_def)
  have ok: "age_ok (hd_age h ! i)" if "i < length (hd_age h)" for i
    using wf that by (simp add: hd_wf_def list_all_length)
  have a: "hd_age h ! i \<in> \<nat> \<and> hd_age h ! i \<le> 2 ^ 24
        \<and> hd_age (hd_step h) ! i = (if hd_age h ! i < 2 ^ 24 then hd_age h ! i + 1 else 2 ^ 24)
        \<and> i < length (hd_age (hd_run embed' h ops))
        \<and> hd_age (hd_run embed' h ops) ! i \<noteq> - 1"
    if "i < length (hd_age h) \<and> hd_age h ! i \<noteq> - 1"
  proof -
    have r: "hd_age h ! i \<in> \<nat>" "hd_age h ! i \<le> 2 ^ 24" "0 \<le> hd_age h ! i"
      using ok [of i] age_ok_range [of "hd_age h ! i"] that by (auto simp: age_ok_def)
    have "hd_age (hd_step h) ! i = (if hd_age h ! i < 2 ^ 24 then hd_age h ! i + 1 else 2 ^ 24)"
      using that r(2) age_step(1) [OF ok [of i]] by (auto simp: hd_step_def)
    moreover have "i < length (hd_age (hd_run embed' h ops)) \<and> 0 \<le> hd_age (hd_run embed' h ops) ! i"
      using hd_run_written [of i h embed' ops] that r(3) by blast
    ultimately show ?thesis using r by auto
  qed
  have b: "hd_age (hd_step h) ! j = - 1" if "j < length (hd_age h) \<and> hd_age h ! j = - 1"
    using that age_step(1) [OF ok [of j]] by (simp add: hd_step_def)
  have c: "fl_pos (hd_txt h) < length (hd_age h)
        \<and> hd_age (snd (hd_append embed' h text meta)) ! fl_pos (hd_txt h) = 0" if "0 < maxlen"
    using wf max that by (simp add: hd_wf_def hd_append_age)
  show ?thesis
    using a b c unfolding h_def by blast
qed

text \<open>
  C8 at the database holding a and b in slots 0 and 1: slot 0 is written, slot 2 is
  not, and the next \<^verbatim>\<open>append\<close> writes slot 2.
\<close>

theorem hd_age_lifecycle_witness:
  "(0 < length (hd_age hd_ab) \<and> hd_age hd_ab ! 0 \<noteq> - 1)
   \<and> (2 < length (hd_age hd_ab) \<and> hd_age hd_ab ! 2 = - 1)
   \<and> (0 :: nat) < 4
   \<and> hd_age hd_ab ! 0 = 0
   \<and> hd_age (hd_step hd_ab) ! 0 = 1
   \<and> hd_age (hd_run embed_ab hd_ab
         [Step, Append ''c'' ''third'', Search ''a'' 1 (Rate (1 / 5)) 0]) ! 0 \<noteq> - 1
   \<and> hd_age (hd_step hd_ab) ! 2 = - 1
   \<and> fl_pos (hd_txt hd_ab) = 2
   \<and> hd_age (snd (hd_append embed_ab hd_ab ''c'' ''third'')) ! 2 = 0"
proof -
  let ?before = "[Append ''a'' ''first'', Append ''b'' ''second'']"
  let ?after = "[Step, Append ''c'' ''third'', Search ''a'' 1 (Rate (1 / 5)) 0]"
  have run: "hd_run embed_ab (hd_init 2 4) ?before = hd_ab"
    by (simp only: hd_ab_def)
  have h1: "0 < length (hd_age hd_ab) \<and> hd_age hd_ab ! 0 \<noteq> - 1"
    by (simp add: hd_ab_eq)
  have h2: "2 < length (hd_age hd_ab) \<and> hd_age hd_ab ! 2 = - 1"
    by (simp add: hd_ab_eq)
  have h3: "(0 :: nat) < 4" by simp
  have v: "hd_age hd_ab ! 0 = 0" "fl_pos (hd_txt hd_ab) = 2"
    by (simp_all add: hd_ab_eq)
  show ?thesis
    using hd_age_lifecycle [of 0 embed_ab 2 4 ?before ?after 2 "''c''" "''third''"] h1 h2 h3 v
    unfolding run by simp
qed

text \<open>
  C8 as stated fails at the age \<open>2^24 = 16777216\<close>: in the database holding hello, after
  that many calls of \<^verbatim>\<open>step\<close> the age of slot 0 is \<open>2^24\<close>, and one more \<^verbatim>\<open>step\<close>
  leaves it there instead of adding one.
\<close>

theorem hd_step_stops_at_top_age:
  "hd_age hd_hello ! 0 = 0
   \<and> hd_age (hd_run embed_ab hd_hello (replicate 16777216 Step)) ! 0 = 16777216
   \<and> hd_age (hd_step (hd_run embed_ab hd_hello (replicate 16777216 Step))) ! 0 = 16777216
   \<and> (16777216 :: real) \<noteq> 16777216 + 1"
proof -
  have ok: "list_all age_ok (hd_age hd_hello)" by (simp add: hd_hello_eq)
  have ages: "hd_age (hd_run embed_ab hd_hello (replicate 16777216 Step))
      = [16777216, - 1, - 1, - 1]"
    unfolding hd_age_steps [OF ok] by (simp add: hd_hello_eq)
  show ?thesis
    unfolding ages hd_step_def by (simp add: hd_hello_eq f32_succ_top)
qed

section \<open>The index of a history database\<close>

lemma list_index_upt: "a \<le> x \<Longrightarrow> x < b \<Longrightarrow> list_index [a ..< b] x = Inr (x - a)"
proof (induction "b - a" arbitrary: a)
  case 0
  then show ?case by simp
next
  case (Suc k)
  then have step: "[a ..< b] = a # [Suc a ..< b]" by (simp add: upt_conv_Cons)
  show ?case
  proof (cases "x = a")
    case True
    then show ?thesis by (simp add: step)
  next
    case False
    then have "list_index [Suc a ..< b] x = Inr (x - Suc a)"
      using Suc by (intro Suc.hyps(1)) auto
    then show ?thesis using False Suc.prems by (simp add: step Suc_diff_Suc)
  qed
qed

lemma indexdict_idx_after_add:
  "\<exists>i. indexdict_idx (indexdict_add d (One g)) [g] = Inr [i]"
proof (cases "g \<in> fst ` set d")
  case True
  then obtain i where "map_of d g = Some i"
    by (metis domD dom_map_of_conv_image_fst)
  then show ?thesis using True by (simp add: indexdict_add_def)
next
  case False
  then have "map_of d g = None" by (simp add: map_of_eq_None_iff)
  then show ?thesis using False by (simp add: indexdict_add_def map_add_def)
qed

lemma zi_add_existing_position:
  fixes idx :: "(nat, unit) zi_index"
  assumes lab: "zi_labels idx = [0 ..< n]" and lset: "zi_labels_set idx = {0 ..< n}"
    and dims: "qe_dims (zi_values idx) = length emb"
    and cap: "n \<le> length (qe_raw (zi_values idx))"
    and grp: "length (zi_groups idx) = length (qe_raw (zi_values idx))"
    and p: "p < n"
  shows "\<exists>idx1. zi_add idx [p] \<lparr>ncols = length emb, rows = [emb]\<rparr> (One ()) False = (None, idx1)
           \<and> zi_labels idx1 = [0 ..< n] \<and> zi_labels_set idx1 = {0 ..< n}
           \<and> qe_dims (zi_values idx1) = length emb
           \<and> qe_raw (zi_values idx1) = (qe_raw (zi_values idx))[p := emb]
           \<and> length (zi_groups idx1) = length (zi_groups idx)"
proof -
  obtain i where gid: "indexdict_idx (indexdict_add (zi_grpids idx) (One ())) [()] = Inr [i]"
    using indexdict_idx_after_add [of "zi_grpids idx" "()"] by blast
  have exist: "zi_labels_set idx \<inter> set [p] = {p}" using p lset by auto
  have loc: "list_index [0 ..< n] p = Inr p" using list_index_upt [of 0 p n] p by simp
  show ?thesis
    using p cap grp
    by (simp add: zi_add_def zi_update_exist_def Let_def gid lab lset dims loc
          index_get_def index_put_def del: indexdict_idx.simps)
qed


lemma zi_add_next_position:
  fixes idx :: "(nat, unit) zi_index"
  assumes lab: "zi_labels idx = [0 ..< n]" and lset: "zi_labels_set idx = {0 ..< n}"
    and dims: "qe_dims (zi_values idx) = length emb"
    and cap: "n \<le> length (qe_raw (zi_values idx))"
    and grp: "length (zi_groups idx) = length (qe_raw (zi_values idx))"
  shows "\<exists>idx1. zi_add idx [n] \<lparr>ncols = length emb, rows = [emb]\<rparr> (One ()) False = (None, idx1)
           \<and> zi_labels idx1 = [0 ..< Suc n] \<and> zi_labels_set idx1 = {0 ..< Suc n}
           \<and> qe_dims (zi_values idx1) = length emb
           \<and> Suc n \<le> length (qe_raw (zi_values idx1))
           \<and> qe_raw (zi_values idx1) ! n = emb
           \<and> (\<forall>i < n. qe_raw (zi_values idx1) ! i = qe_raw (zi_values idx) ! i)
           \<and> length (zi_groups idx1) = length (qe_raw (zi_values idx1))"
proof -
  obtain i where gid: "indexdict_idx (indexdict_add (zi_grpids idx) (One ())) [()] = Inr [i]"
    using indexdict_idx_after_add [of "zi_grpids idx" "()"] by blast
  have "\<exists>k. next_power_of_2 (int (Suc n)) = Inr (2 ^ k) \<and> int (Suc n) \<le> int (2 ^ k)"
  proof (cases rule: next_power_of_2_cases [of "int (Suc n)"])
    case err
    then show ?thesis by simp
  next
    case (ok k)
    then show ?thesis by blast
  qed
  then obtain k where np: "next_power_of_2 (int (Suc n)) = Inr (2 ^ k)"
    and le: "Suc n \<le> 2 ^ k"
    unfolding of_nat_le_iff by blast
  define c :: nat where "c = 2 ^ k"
  have np': "next_power_of_2 (1 + int n) = Inr c" and le': "Suc n \<le> c"
    using np le by (simp_all add: c_def add.commute)
  have novel: "{n} - {0 ..< n} \<inter> {n} = {n}" "{0 ..< n} \<inter> {n} = {}"
    by auto
  have lset': "insert n {0 ..< n} = {0 ..< Suc n}" by auto
  show ?thesis
  proof (cases "length (qe_raw (zi_values idx)) < c")
    case True
    then show ?thesis
      using cap grp le'
      by (simp add: zi_add_def zi_append_novel_def zi_expand_def orderedset_extend_def
            Let_def gid lab lset dims np' novel lset' zi_size_def qe_size_def qe_resize_def
            resize_alloc_def index_get_def slice_put_def index_put_def nth_append
            del: indexdict_idx.simps)
  next
    case False
    then show ?thesis
      using cap grp le'
      by (simp add: zi_add_def zi_append_novel_def zi_expand_def orderedset_extend_def
            Let_def gid lab lset dims np' novel lset' zi_size_def qe_size_def qe_resize_def
            resize_alloc_def index_get_def slice_put_def index_put_def nth_append
            del: indexdict_idx.simps)
  qed
qed

lemma hd_append_inv:
  assumes inv: "hd_inv dims h" and emb: "length (embed' t) = dims" and pos: "0 < hd_max h"
    and d1: "dims \<noteq> 1"
  shows "\<exists>h1. hd_append embed' h t meta = (None, h1) \<and> hd_inv dims h1 \<and>
           fl_pos (hd_txt h) < len (hd_txt h1) \<and>
           hd_age h1 ! fl_pos (hd_txt h) = 0 \<and>
           qe_raw (zi_values (hd_idx h1)) ! fl_pos (hd_txt h) = embed' t"
proof -
  define n where "n = len (hd_txt h)"
  define p where "p = fl_pos (hd_txt h)"
  define m where "m = hd_max h"
  define idx where "idx = hd_idx h"
  have wf: "length (hd_age h) = m" "fl_max (hd_txt h) = m" "p < m"
    "list_all age_ok (hd_age h)"
    using inv pos by (auto simp: hd_inv_def hd_wf_def m_def p_def)
  have i: "n \<le> m" "n < m \<longrightarrow> p = n" "zi_labels idx = [0 ..< n]" "zi_labels_set idx = {0 ..< n}"
    "qe_dims (zi_values idx) = length (embed' t)" "n \<le> length (qe_raw (zi_values idx))"
    "length (zi_groups idx) = length (qe_raw (zi_values idx))"
    "\<forall>i < m. 0 \<le> hd_age h ! i \<longleftrightarrow> i < n"
    using inv emb by (simp_all add: hd_inv_def n_def p_def m_def idx_def)
  let ?vecs = "\<lparr>ncols = length (embed' t), rows = [embed' t]\<rparr>"
  have ages1: "list_all age_ok ((hd_age h)[p := 0])"
    using wf(4) by (auto simp: list_all_iff dest!: set_update_subset_insert [THEN subsetD])
  show ?thesis
  proof (cases "n < m")
    case True
    then have pn: "p = n" using i(2) by simp
    obtain idx1 where add: "zi_add idx [n] ?vecs (One ()) False = (None, idx1)"
      and 1: "zi_labels idx1 = [0 ..< Suc n]" "zi_labels_set idx1 = {0 ..< Suc n}"
        "qe_dims (zi_values idx1) = length (embed' t)"
        "Suc n \<le> length (qe_raw (zi_values idx1))"
        "qe_raw (zi_values idx1) ! n = embed' t"
        "length (zi_groups idx1) = length (qe_raw (zi_values idx1))"
      using zi_add_next_position [OF i(3,4,5,6,7)] by blast
    define h1 where "h1 = h\<lparr>hd_age := (hd_age h)[n := 0], hd_idx := idx1,
        hd_txt := (hd_txt h)\<lparr>fl_data := fl_data (hd_txt h) @ [(meta, t)],
                              fl_pos := Suc n mod m\<rparr>\<rparr>"
    have res: "hd_append embed' h t meta = (None, h1)"
      using True wf(1,2,3) add emb d1
      by (simp add: hd_append_def Let_def append_fl_def h1_def
            p_def [symmetric] pn idx_def [symmetric] n_def [symmetric])
    have len1: "len (hd_txt h1) = Suc n"
      by (simp add: h1_def len_def n_def)
    have age1: "\<forall>i < m. 0 \<le> hd_age h1 ! i \<longleftrightarrow> i < Suc n"
      using i(8) wf(1) True by (auto simp: h1_def nth_list_update less_Suc_eq)
    have "hd_inv dims h1"
      unfolding hd_inv_def hd_wf_def len1
      using wf True 1 ages1 age1 emb pn
      by (simp add: h1_def m_def [symmetric])
    moreover have "hd_age h1 ! p = 0" using wf(1) True pn by (simp add: h1_def)
    moreover have "qe_raw (zi_values (hd_idx h1)) ! p = embed' t" using 1(5) pn by (simp add: h1_def)
    ultimately show ?thesis using res len1 pn unfolding p_def by auto
  next
    case False
    then have nm: "n = m" using i(1) by simp
    have pn: "p < n" using wf(3) nm by simp
    obtain idx1 where add: "zi_add idx [p] ?vecs (One ()) False = (None, idx1)"
      and 1: "zi_labels idx1 = [0 ..< n]" "zi_labels_set idx1 = {0 ..< n}"
        "qe_dims (zi_values idx1) = length (embed' t)"
        "qe_raw (zi_values idx1) = (qe_raw (zi_values idx))[p := embed' t]"
        "length (zi_groups idx1) = length (zi_groups idx)"
      using zi_add_existing_position [OF i(3,4,5,6,7) pn] by blast
    define h1 where "h1 = h\<lparr>hd_age := (hd_age h)[p := 0], hd_idx := idx1,
        hd_txt := (hd_txt h)\<lparr>fl_data := (fl_data (hd_txt h))[p := (meta, t)],
                              fl_pos := Suc p mod m\<rparr>\<rparr>"
    have res: "hd_append embed' h t meta = (None, h1)"
      using nm pn wf(1,2,3) add emb d1
      by (simp add: hd_append_def Let_def append_fl_def h1_def
            p_def [symmetric] idx_def [symmetric] n_def [symmetric])
    have len1: "len (hd_txt h1) = n"
      by (simp add: h1_def len_def n_def)
    have age1: "\<forall>i < m. 0 \<le> hd_age h1 ! i \<longleftrightarrow> i < n"
    proof (intro allI impI)
      fix j
      assume "j < m"
      then have "0 \<le> hd_age h ! j" using i(8) nm by simp
      then have "0 \<le> (hd_age h)[p := 0] ! j"
        using wf(1) \<open>j < m\<close> by (cases "j = p") simp_all
      then show "0 \<le> hd_age h1 ! j \<longleftrightarrow> j < n"
        using \<open>j < m\<close> nm by (simp add: h1_def)
    qed
    have "hd_inv dims h1"
      unfolding hd_inv_def hd_wf_def len1
      using wf nm 1 i(6,7) ages1 age1 emb
      by (simp add: h1_def m_def [symmetric])
    moreover have "hd_age h1 ! p = 0" using wf(1) wf(3) by (simp add: h1_def)
    moreover have "qe_raw (zi_values (hd_idx h1)) ! p = embed' t"
      using 1(4) i(6) pn by (simp add: h1_def)
    ultimately show ?thesis using res len1 pn unfolding p_def by auto
  qed
qed

lemma hd_init_inv: "hd_inv dims (hd_init dims maxlen)"
  by (simp add: hd_inv_def hd_wf_def hd_init_def FiniteList_init_def len_def zi_init_def
        qe_init_def list_all_iff)

lemma hd_step_inv:
  assumes "hd_inv dims h"
  shows "hd_inv dims (hd_step h)"
proof -
  have wf: "hd_wf (hd_step h)"
    using hd_apply_wf [of h embed' Step for embed'] assms by (simp add: hd_inv_def)
  have sign: "0 \<le> f32 (a + (if 0 \<le> a then 1 else 0)) \<longleftrightarrow> 0 \<le> a" if "age_ok a" for a
  proof (cases "a = - 1")
    case True
    then show ?thesis unfolding age_step(1) [OF that] by simp
  next
    case False
    then have "0 \<le> a" using age_ok_range [OF that] by simp
    then show ?thesis unfolding age_step(1) [OF that] using False by simp
  qed
  have "\<forall>i < hd_max h. 0 \<le> hd_age (hd_step h) ! i \<longleftrightarrow> i < len (hd_txt h)"
  proof (intro allI impI)
    fix i
    assume i: "i < hd_max h"
    have len: "length (hd_age h) = hd_max h" and ok: "age_ok (hd_age h ! i)"
      and old: "0 \<le> hd_age h ! i \<longleftrightarrow> i < len (hd_txt h)"
      using assms i by (simp_all add: hd_inv_def hd_wf_def list_all_length)
    have "hd_age (hd_step h) ! i = f32 (hd_age h ! i + (if 0 \<le> hd_age h ! i then 1 else 0))"
      using i len by (simp add: hd_step_def)
    then show "0 \<le> hd_age (hd_step h) ! i \<longleftrightarrow> i < len (hd_txt h)"
      using sign [OF ok] old by simp
  qed
  then show ?thesis
    using assms wf by (simp add: hd_inv_def hd_step_def)
qed

lemma hd_apply_inv:
  assumes inv: "hd_inv dims h" and emb: "\<forall>t. length (embed' t) = dims" and d1: "dims \<noteq> 1"
  shows "hd_inv dims (hd_apply embed' h c)"
proof (cases c)
  case (Append t meta)
  show ?thesis
  proof (cases "0 < hd_max h")
    case True
    then show ?thesis
      using hd_append_inv [OF inv _ True d1, of embed' t meta] emb Append by auto
  next
    case False
    then have "length (hd_age h) = 0" using inv by (simp add: hd_inv_def hd_wf_def)
    then have "hd_append embed' h t meta = (Some IndexError, h)"
      by (simp add: hd_append_def Let_def)
    then show ?thesis using inv Append by simp
  qed
next
  case Step
  then show ?thesis using hd_step_inv [OF inv] by simp
next
  case (Search query k disc cutoff)
  then show ?thesis using inv by simp
qed

lemma hd_run_inv:
  assumes "hd_inv dims h" and "\<forall>t. length (embed' t) = dims" and "dims \<noteq> 1"
  shows "hd_inv dims (hd_run embed' h cs)"
  using assms(1)
proof (induction cs arbitrary: h)
  case Nil
  then show ?case by simp
next
  case (Cons c cs)
  show ?case
    using Cons.IH [OF hd_apply_inv [OF Cons.prems assms(2,3)]] by simp
qed

lemma filter_prefix:
  assumes "\<forall>i < length xs. P (xs ! i) \<longleftrightarrow> i < n" and "n \<le> length xs"
  shows "filter P xs = take n xs"
  using assms
proof (induction xs arbitrary: n)
  case Nil
  then show ?case by simp
next
  case (Cons x xs)
  have head: "P x \<longleftrightarrow> 0 < n"
    using Cons.prems(1) [rule_format, of 0] by simp
  have tail: "P (xs ! i) \<longleftrightarrow> Suc i < n" if "i < length xs" for i
    using Cons.prems(1) [rule_format, of "Suc i"] that by simp
  show ?case
  proof (cases n)
    case 0
    have "\<not> P y" if "y \<in> set xs" for y
    proof -
      from that obtain j where j: "j < length xs" "xs ! j = y"
        unfolding in_set_conv_nth by blast
      show ?thesis using tail [OF j(1)] j(2) 0 by simp
    qed
    then have "filter P xs = []" unfolding filter_empty_conv by blast
    then show ?thesis using 0 head by simp
  next
    case (Suc k)
    have "\<forall>i < length xs. P (xs ! i) \<longleftrightarrow> i < k"
      using tail Suc by simp
    moreover have "k \<le> length xs" using Cons.prems(2) Suc by simp
    ultimately have "filter P xs = take k xs" by (rule Cons.IH)
    then show ?thesis using Suc head by simp
  qed
qed

lemma hd_sim_inv:
  assumes inv: "hd_inv dims h" and emb: "length (embed' query) = dims"
  shows "hd_sim embed' h query (Rate d) =
     Inr (map (\<lambda>i. f32 (weight d (hd_age h ! i)
                          * dot (embed' query) (qe_raw (zi_values (hd_idx h)) ! i)))
            [0 ..< len (hd_txt h)])"
proof -
  define n where "n = len (hd_txt h)"
  have i: "length (hd_age h) = hd_max h" "n \<le> hd_max h"
    "zi_labels (hd_idx h) = [0 ..< n]" "qe_dims (zi_values (hd_idx h)) = dims"
    "n \<le> length (qe_raw (zi_values (hd_idx h)))"
    "\<forall>i < hd_max h. 0 \<le> hd_age h ! i \<longleftrightarrow> i < n"
    using inv by (simp_all add: hd_inv_def hd_wf_def n_def)
  have ages: "filter (\<lambda>a. 0 \<le> a) (hd_age h) = take n (hd_age h)"
    by (rule filter_prefix) (use i in auto)
  have sim0: "zi_simil (hd_idx h) (embed' query) =
      Inr (map (\<lambda>i. dot (embed' query) (qe_raw (zi_values (hd_idx h)) ! i)) [0 ..< n])"
    using i(3,4,5) emb
    by (auto simp: zi_simil_def zi_size_def qe_similarity_def index_get_def list_ex_iff)
  have "map2 (\<lambda>x y. f32 (x * y)) (map (weight d) (take n (hd_age h)))
          (map (\<lambda>i. dot (embed' query) (qe_raw (zi_values (hd_idx h)) ! i)) [0 ..< n])
      = map (\<lambda>i. f32 (weight d (hd_age h ! i)
                    * dot (embed' query) (qe_raw (zi_values (hd_idx h)) ! i))) [0 ..< n]"
    using i(1,2) by (intro nth_equalityI) simp_all
  then show ?thesis
    using i(1,2) by (simp add: hd_sim_def Let_def ages sim0 broadcast_mul_def n_def)
qed

section \<open>Decay of the scores with age\<close>

lemma hd_run_steps_same:
  "hd_idx (hd_run embed' h (replicate n Step)) = hd_idx h"
  "hd_txt (hd_run embed' h (replicate n Step)) = hd_txt h"
  by (induction n arbitrary: h) (simp_all add: hd_step_def)

lemma filter_age_steps:
  assumes "list_all age_ok ages"
  shows "filter (\<lambda>a. 0 \<le> a) (map (\<lambda>a. if 0 \<le> a then min (a + real n) (2 ^ 24) else a) ages)
           = map (\<lambda>a. min (a + real n) (2 ^ 24)) (filter (\<lambda>a. 0 \<le> a) ages)"
  using assms by (induction ages) auto

lemma positive_product:
  assumes "0 < f32 (w * s)" and "0 \<le> w"
  shows "0 < s"
proof (rule ccontr)
  assume "\<not> 0 < s"
  then have "w * s \<le> 0" using assms(2) by (simp add: mult_le_0_iff)
  then have "f32 (w * s) \<le> 0" by (rule f32_nonpos)
  then show False using assms(1) by simp
qed

lemma broadcast_mul_lower:
  assumes res: "broadcast_mul ws ss = Inr sim" and len: "length vs = length ws"
    and le: "\<forall>i < length ws. 0 \<le> vs ! i \<and> vs ! i \<le> ws ! i"
    and j: "j < length sim" and pos: "0 < sim ! j"
  shows "\<exists>sim'. broadcast_mul vs ss = Inr sim' \<and> length sim' = length sim \<and> sim' ! j \<le> sim ! j"
proof -
  have step: "f32 (v * s) \<le> f32 (w * s)" if "0 < f32 (w * s)" "0 \<le> v" "v \<le> w" for v w s
  proof -
    have "0 < s" using that by (intro positive_product [of w s]) simp_all
    then have "v * s \<le> w * s" using that(3) by (simp add: mult_right_mono)
    then show ?thesis by (rule f32_mono)
  qed
  consider "length ws = length ss" | "length ws \<noteq> length ss" "length ws = 1"
    | "length ws \<noteq> length ss" "length ws \<noteq> 1" "length ss = 1"
    using res by (auto simp: broadcast_mul_def split: if_splits)
  then show ?thesis
  proof cases
    case 1
    then have sim: "sim = map2 (\<lambda>x y. f32 (x * y)) ws ss"
      using res by (simp add: broadcast_mul_def)
    have jj: "j < length ws" "j < length ss" using j 1 by (simp_all add: sim)
    have "f32 (vs ! j * ss ! j) \<le> f32 (ws ! j * ss ! j)"
      using pos le jj by (intro step) (simp_all add: sim)
    then show ?thesis using 1 len jj by (simp add: broadcast_mul_def sim)
  next
    case 2
    then have sim: "sim = map (\<lambda>y. f32 (hd ws * y)) ss"
      using res by (simp add: broadcast_mul_def)
    have h: "hd ws = ws ! 0" "hd vs = vs ! 0"
      using 2(2) len by (cases ws; cases vs; simp)+
    have "f32 (vs ! 0 * ss ! j) \<le> f32 (ws ! 0 * ss ! j)"
      using pos le j 2(2) by (intro step) (simp_all add: sim h)
    then show ?thesis using 2 len j by (simp add: broadcast_mul_def sim h)
  next
    case 3
    then have sim: "sim = map (\<lambda>x. f32 (x * hd ss)) ws"
      using res by (simp add: broadcast_mul_def)
    have "f32 (vs ! j * hd ss) \<le> f32 (ws ! j * hd ss)"
      using pos le j by (intro step) (simp_all add: sim)
    then show ?thesis using 3 len j by (simp add: broadcast_mul_def sim)
  qed
qed

lemma hd_sim_steps_lower:
  assumes d: "0 \<le> d" and ok: "list_all age_ok (hd_age h)"
    and res: "hd_sim embed' h query (Rate d) = Inr sim"
    and j: "j < length sim" and pos: "0 < sim ! j"
  shows "\<exists>sim'. hd_sim embed' (hd_run embed' h (replicate n Step)) query (Rate d) = Inr sim'
           \<and> length sim' = length sim \<and> sim' ! j \<le> sim ! j"
proof -
  define ages where "ages = filter (\<lambda>a. 0 \<le> a) (hd_age h)"
  define later where "later = map (\<lambda>a. min (a + real n) (2 ^ 24)) ages"
  have after: "filter (\<lambda>a. 0 \<le> a) (hd_age (hd_run embed' h (replicate n Step))) = later"
    unfolding hd_age_steps [OF ok] filter_age_steps [OF ok] later_def ages_def ..
  obtain sim0 where sim0: "zi_simil (hd_idx h) (embed' query) = Inr sim0"
    and before: "broadcast_mul (map (weight d) ages) sim0 = Inr sim"
    using res by (auto simp: hd_sim_def Let_def ages_def split: sum.splits)
  have range: "0 \<le> a \<and> a \<le> 2 ^ 24" if "a \<in> set ages" for a
    using that ok age_ok_range [of a] by (auto simp: ages_def list_all_iff)
  have "0 \<le> map (weight d) later ! i \<and> map (weight d) later ! i \<le> map (weight d) ages ! i"
    if "i < length ages" for i
  proof -
    have "ages ! i \<le> min (ages ! i + real n) (2 ^ 24)"
      using range [of "ages ! i"] that by simp
    then show ?thesis
      using that weight_nonneg weight_antimono [OF d] by (simp add: later_def)
  qed
  then have "\<exists>sim'. broadcast_mul (map (weight d) later) sim0 = Inr sim'
      \<and> length sim' = length sim \<and> sim' ! j \<le> sim ! j"
    using broadcast_mul_lower [of "map (weight d) ages" sim0 sim "map (weight d) later" j]
      before j pos by (simp add: later_def)
  then show ?thesis
    by (simp add: hd_sim_def Let_def after hd_run_steps_same sim0)
qed

text \<open>
  C9, as the code has it. The weight of an entry of age \<open>a\<close> is the \<^verbatim>\<open>float32\<close> value
  of \<open>exp(-\<lambda> a)\<close>, and its score the \<^verbatim>\<open>float32\<close> product of weight and raw similarity.
  With \<open>\<lambda> \<ge> 0\<close>, \<open>n\<close> calls of \<^verbatim>\<open>step\<close> never raise a positive score, whatever the
  query. They lower it strictly in the scenario of the spec when the decay is at least one
  e-fold, \<open>\<lambda> n \<ge> 1\<close>, as with the default \<open>\<lambda> = 0.2\<close> and five steps: take a history
  database of capacity \<open>maxlen > 0\<close> whose embedder returns vectors of the index's
  dimension (not 1, which \<^verbatim>\<open>squeeze()\<close> collapses), in any state reached from the fresh
  one, and a text \<open>t\<close> whose embedding has a product with itself that is a normal
  \<^verbatim>\<open>float32\<close> number; then \<^verbatim>\<open>append\<close> of \<open>t\<close> returns normally, the search for \<open>t\<close>
  right after it scores the new entry, at the slot that was under the write cursor, with
  that product, and the same search after \<open>n \<le> 2^24\<close> steps scores it strictly lower.
  (\<open>\<lambda>\<close> and the product are below \<open>2^127\<close>, within the range of \<^verbatim>\<open>float32\<close>.)
\<close>

theorem hd_sim_decreases_with_age:
  "(0 \<le> d \<and> d < 2 ^ 127 \<and> list_all age_ok (hd_age h)
      \<and> hd_sim embed' h query (Rate d) = Inr sim \<and> j < length sim \<and> 0 < sim ! j
    \<longrightarrow> (\<exists>sim'. hd_sim embed' (hd_run embed' h (replicate n Step)) query (Rate d) = Inr sim'
              \<and> length sim' = length sim
              \<and> sim' ! j \<le> sim ! j))
   \<and> ((\<forall>s. length (embed' s) = dims) \<and> dims \<noteq> 1 \<and> 0 < maxlen
       \<and> 1 \<le> d * real m \<and> m \<le> 2 ^ 24 \<and> d < 2 ^ 127
       \<and> 2 powr (- 125) \<le> dot (embed' t) (embed' t) \<and> dot (embed' t) (embed' t) < 2 ^ 127
    \<longrightarrow> (\<exists>h1 sim1 sim2.
          hd_append embed' (hd_run embed' (hd_init dims maxlen) ops) t meta = (None, h1)
          \<and> hd_sim embed' h1 t (Rate d) = Inr sim1
          \<and> hd_sim embed' (hd_run embed' h1 (replicate m Step)) t (Rate d) = Inr sim2
          \<and> fl_pos (hd_txt (hd_run embed' (hd_init dims maxlen) ops)) < length sim1
          \<and> length sim2 = length sim1
          \<and> sim1 ! fl_pos (hd_txt (hd_run embed' (hd_init dims maxlen) ops))
              = f32 (dot (embed' t) (embed' t))
          \<and> sim2 ! fl_pos (hd_txt (hd_run embed' (hd_init dims maxlen) ops))
              < sim1 ! fl_pos (hd_txt (hd_run embed' (hd_init dims maxlen) ops))))"
proof (rule conjI)
  show "0 \<le> d \<and> d < 2 ^ 127 \<and> list_all age_ok (hd_age h)
      \<and> hd_sim embed' h query (Rate d) = Inr sim \<and> j < length sim \<and> 0 < sim ! j
    \<longrightarrow> (\<exists>sim'. hd_sim embed' (hd_run embed' h (replicate n Step)) query (Rate d) = Inr sim'
              \<and> length sim' = length sim
              \<and> sim' ! j \<le> sim ! j)"
    using hd_sim_steps_lower [of d h embed' query sim j n] by blast
next
  show "(\<forall>s. length (embed' s) = dims) \<and> dims \<noteq> 1 \<and> 0 < maxlen
       \<and> 1 \<le> d * real m \<and> m \<le> 2 ^ 24 \<and> d < 2 ^ 127
       \<and> 2 powr (- 125) \<le> dot (embed' t) (embed' t) \<and> dot (embed' t) (embed' t) < 2 ^ 127
    \<longrightarrow> (\<exists>h1 sim1 sim2.
          hd_append embed' (hd_run embed' (hd_init dims maxlen) ops) t meta = (None, h1)
          \<and> hd_sim embed' h1 t (Rate d) = Inr sim1
          \<and> hd_sim embed' (hd_run embed' h1 (replicate m Step)) t (Rate d) = Inr sim2
          \<and> fl_pos (hd_txt (hd_run embed' (hd_init dims maxlen) ops)) < length sim1
          \<and> length sim2 = length sim1
          \<and> sim1 ! fl_pos (hd_txt (hd_run embed' (hd_init dims maxlen) ops))
              = f32 (dot (embed' t) (embed' t))
          \<and> sim2 ! fl_pos (hd_txt (hd_run embed' (hd_init dims maxlen) ops))
              < sim1 ! fl_pos (hd_txt (hd_run embed' (hd_init dims maxlen) ops)))"
  proof
    assume a: "(\<forall>s. length (embed' s) = dims) \<and> dims \<noteq> 1 \<and> 0 < maxlen
       \<and> 1 \<le> d * real m \<and> m \<le> 2 ^ 24 \<and> d < 2 ^ 127
       \<and> 2 powr (- 125) \<le> dot (embed' t) (embed' t) \<and> dot (embed' t) (embed' t) < 2 ^ 127"
    define h where "h = hd_run embed' (hd_init dims maxlen) ops"
    define p where "p = fl_pos (hd_txt h)"
    define s0 where "s0 = dot (embed' t) (embed' t)"
    have d1: "dims \<noteq> 1" using a by simp
    have embs: "\<forall>s. length (embed' s) = dims" using a by simp
    have inv: "hd_inv dims h"
      unfolding h_def using embs d1 by (intro hd_run_inv hd_init_inv) simp_all
    have cap: "0 < hd_max h"
      using a by (simp add: h_def hd_run_max hd_init_def)
    have emb: "length (embed' t) = dims" using a by simp
    obtain h1 where app: "hd_append embed' h t meta = (None, h1)" and inv1: "hd_inv dims h1"
      and p1: "p < len (hd_txt h1)" "hd_age h1 ! p = 0"
        "qe_raw (zi_values (hd_idx h1)) ! p = embed' t"
      using hd_append_inv [of dims h embed' t meta, OF inv emb cap d1] unfolding p_def by blast
    define h2 where "h2 = hd_run embed' h1 (replicate m Step)"
    have inv2: "hd_inv dims h2"
      unfolding h2_def using inv1 embs d1 by (rule hd_run_inv)
    have same: "hd_idx h2 = hd_idx h1" "hd_txt h2 = hd_txt h1"
      by (simp_all add: h2_def hd_run_steps_same)
    have ok1: "list_all age_ok (hd_age h1)" and len_age: "length (hd_age h1) = hd_max h1"
      and len_txt: "len (hd_txt h1) \<le> hd_max h1"
      using inv1 by (simp_all add: hd_inv_def hd_wf_def)
    have pa: "p < length (hd_age h1)" using p1(1) len_age len_txt by simp
    have "real m \<le> 2 ^ 24" using a by (simp only: of_nat_le_numeral_power_cancel_iff)
    then have age2: "hd_age h2 ! p = real m"
      unfolding h2_def hd_age_steps [OF ok1] using pa p1(2) by simp
    define sim1 where "sim1 = map (\<lambda>i. f32 (weight d (hd_age h1 ! i)
                    * dot (embed' t) (qe_raw (zi_values (hd_idx h1)) ! i)))
            [0 ..< len (hd_txt h1)]"
    define sim2 where "sim2 = map (\<lambda>i. f32 (weight d (hd_age h2 ! i)
                    * dot (embed' t) (qe_raw (zi_values (hd_idx h2)) ! i)))
            [0 ..< len (hd_txt h2)]"
    have s1: "hd_sim embed' h1 t (Rate d) = Inr sim1"
      unfolding sim1_def by (rule hd_sim_inv [of dims h1 embed' t, OF inv1 emb])
    have s2: "hd_sim embed' h2 t (Rate d) = Inr sim2"
      unfolding sim2_def by (rule hd_sim_inv [of dims h2 embed' t, OF inv2 emb])
    have len1: "p < length sim1" using p1(1) by (simp add: sim1_def)
    have len2: "length sim2 = length sim1" by (simp add: sim1_def sim2_def same)
    have val1: "sim1 ! p = f32 (1 * s0)"
      using p1 by (simp add: sim1_def s0_def)
    have val2: "sim2 ! p = f32 (weight d (real m) * s0)"
      using p1 age2 by (simp add: sim2_def same s0_def)
    have "weight d (real m) \<le> 1 / 2"
      using a \<open>real m \<le> 2 ^ 24\<close> by (intro weight_half) simp_all
    then have "f32 (weight d (real m) * s0) < f32 (1 * s0)"
      using a weight_nonneg by (intro f32_halved_lower) (simp_all add: s0_def)
    then have lower: "sim2 ! p < sim1 ! p" by (simp only: val1 val2)
    have val1': "sim1 ! p = f32 (dot (embed' t) (embed' t))"
      using val1 by (simp add: s0_def)
    show "\<exists>h1 sim1 sim2.
          hd_append embed' (hd_run embed' (hd_init dims maxlen) ops) t meta = (None, h1)
          \<and> hd_sim embed' h1 t (Rate d) = Inr sim1
          \<and> hd_sim embed' (hd_run embed' h1 (replicate m Step)) t (Rate d) = Inr sim2
          \<and> fl_pos (hd_txt (hd_run embed' (hd_init dims maxlen) ops)) < length sim1
          \<and> length sim2 = length sim1
          \<and> sim1 ! fl_pos (hd_txt (hd_run embed' (hd_init dims maxlen) ops))
              = f32 (dot (embed' t) (embed' t))
          \<and> sim2 ! fl_pos (hd_txt (hd_run embed' (hd_init dims maxlen) ops))
              < sim1 ! fl_pos (hd_txt (hd_run embed' (hd_init dims maxlen) ops))"
      using app s1 s2 [unfolded h2_def] len1 len2 val1' lower
      unfolding h_def [symmetric] p_def [symmetric] by blast
  qed
qed

lemmas sim_eval = hd_sim_def zi_simil_def qe_similarity_def zi_size_def index_get_def
  broadcast_mul_def dot_def

lemma hd_hello_sim: "hd_sim embed_ab hd_hello ''hello'' (Rate d) = Inr [1]"
  by (simp add: hd_hello_eq sim_eval embed_ab_def)

lemma hd_sign_sim: "hd_sim embed_sign hd_sign ''b'' (Rate d) = Inr [- 1]"
  using f32_minus [of 1] by (simp add: hd_sign_eq sim_eval embed_sign_def)

lemma hd_zero_sim: "hd_sim embed_zero hd_zero ''hello'' (Rate d) = Inr [0]"
  by (simp add: hd_zero_eq sim_eval embed_zero_def)

text \<open>The three databases after five calls of \<^verbatim>\<open>step\<close>.\<close>

lemma hd_five_steps:
  "hd_run embed' hd_hello (replicate 5 Step) = hd_hello\<lparr>hd_age := [5, - 1, - 1, - 1]\<rparr>"
  "hd_run embed' hd_sign (replicate 5 Step) = hd_sign\<lparr>hd_age := [5, - 1, - 1, - 1]\<rparr>"
  "hd_run embed' hd_zero (replicate 5 Step) = hd_zero\<lparr>hd_age := [5, - 1, - 1, - 1]\<rparr>"
proof -
  have one: "f32 (- 1) = - 1" using f32_minus [of 1] by simp
  have up: "f32 2 = 2" "f32 3 = 3" "f32 4 = 4" "f32 5 = 5"
    using f32_nat [of 2] f32_nat [of 3] f32_nat [of 4] f32_nat [of 5] by simp_all
  have five: "replicate 5 Step = [Step, Step, Step, Step, Step]"
    by (simp add: replicate_numeral)
  show "hd_run embed' hd_hello (replicate 5 Step) = hd_hello\<lparr>hd_age := [5, - 1, - 1, - 1]\<rparr>"
    unfolding five by (simp add: hd_step_def hd_hello_eq one up)
  show "hd_run embed' hd_sign (replicate 5 Step) = hd_sign\<lparr>hd_age := [5, - 1, - 1, - 1]\<rparr>"
    unfolding five by (simp add: hd_step_def hd_sign_eq one up)
  show "hd_run embed' hd_zero (replicate 5 Step) = hd_zero\<lparr>hd_age := [5, - 1, - 1, - 1]\<rparr>"
    unfolding five by (simp add: hd_step_def hd_zero_eq one up)
qed

text \<open>
  C9 in the scenario of the spec, with the default \<open>\<lambda> = 0.2\<close> and an embedder that maps
  hello to a unit vector: in the fresh database of capacity 4 the score of the entry is
  1 right after \<^verbatim>\<open>append\<close> and lower after five steps.
\<close>

theorem hd_sim_decreases_with_age_witness:
  "((0 :: real) \<le> 1 / 5 \<and> (1 / 5 :: real) < 2 ^ 127 \<and> list_all age_ok (hd_age hd_hello)
      \<and> hd_sim embed_ab hd_hello ''hello'' (Rate (1 / 5)) = Inr [1]
      \<and> 0 < length [1 :: real] \<and> (0 :: real) < [1] ! 0)
   \<and> (\<exists>sim'. hd_sim embed_ab (hd_run embed_ab hd_hello (replicate 5 Step)) ''hello''
                 (Rate (1 / 5)) = Inr sim'
             \<and> sim' ! 0 \<le> 1)
   \<and> ((\<forall>s. length (embed_ab s) = 2) \<and> (2 :: nat) \<noteq> 1 \<and> (0 :: nat) < 4
      \<and> (1 :: real) \<le> 1 / 5 * real 5 \<and> (5 :: nat) \<le> 2 ^ 24
      \<and> 2 powr (- 125) \<le> dot (embed_ab ''hello'') (embed_ab ''hello'')
      \<and> dot (embed_ab ''hello'') (embed_ab ''hello'') < 2 ^ 127)
   \<and> (\<exists>h1 sim1 sim2.
          hd_append embed_ab (hd_run embed_ab (hd_init 2 4) []) ''hello'' ''greeting'' = (None, h1)
          \<and> hd_sim embed_ab h1 ''hello'' (Rate (1 / 5)) = Inr sim1
          \<and> hd_sim embed_ab (hd_run embed_ab h1 (replicate 5 Step)) ''hello'' (Rate (1 / 5))
              = Inr sim2
          \<and> sim1 ! 0 = 1 \<and> sim2 ! 0 < sim1 ! 0)"
proof -
  have h: "(0 :: real) \<le> 1 / 5 \<and> (1 / 5 :: real) < 2 ^ 127 \<and> list_all age_ok (hd_age hd_hello)
      \<and> hd_sim embed_ab hd_hello ''hello'' (Rate (1 / 5)) = Inr [1]
      \<and> 0 < length [1 :: real] \<and> (0 :: real) < [1] ! 0"
    by (simp add: hd_hello_sim) (simp add: hd_hello_eq)
  have small: "2 powr (- 125) \<le> (1 :: real)"
    by (simp add: powr_minus_divide)
  have v: "dot (embed_ab ''hello'') (embed_ab ''hello'') = 1"
    "fl_pos (hd_txt (hd_run embed_ab (hd_init 2 4 :: string HistoryDatabase) [])) = 0"
    by (simp_all add: embed_ab_def dot_def hd_init_def FiniteList_init_def)
  have g: "(\<forall>s. length (embed_ab s) = 2) \<and> (2 :: nat) \<noteq> 1 \<and> (0 :: nat) < 4
      \<and> (1 :: real) \<le> 1 / 5 * real 5 \<and> (5 :: nat) \<le> 2 ^ 24 \<and> (1 / 5 :: real) < 2 ^ 127
      \<and> 2 powr (- 125) \<le> dot (embed_ab ''hello'') (embed_ab ''hello'')
      \<and> dot (embed_ab ''hello'') (embed_ab ''hello'') < 2 ^ 127"
    unfolding v using small by (simp add: embed_ab_def)
  have first: "\<exists>sim'. hd_sim embed_ab (hd_run embed_ab hd_hello (replicate 5 Step)) ''hello''
                 (Rate (1 / 5)) = Inr sim' \<and> sim' ! 0 \<le> 1"
    using hd_sim_decreases_with_age [of "1 / 5" hd_hello embed_ab "''hello''" "[1]" 0 5
            2 4 5 "''hello''" "[]" "''greeting''"] h
    by auto
  have second: "\<exists>h1 sim1 sim2.
          hd_append embed_ab (hd_run embed_ab (hd_init 2 4) []) ''hello'' ''greeting'' = (None, h1)
          \<and> hd_sim embed_ab h1 ''hello'' (Rate (1 / 5)) = Inr sim1
          \<and> hd_sim embed_ab (hd_run embed_ab h1 (replicate 5 Step)) ''hello'' (Rate (1 / 5))
              = Inr sim2
          \<and> sim1 ! 0 = 1 \<and> sim2 ! 0 < sim1 ! 0"
    using hd_sim_decreases_with_age [of "1 / 5" hd_hello embed_ab "''hello''" "[1]" 0 5
            2 4 5 "''hello''" "[]" "''greeting''"] g
    unfolding v by (simp only: f32_one) blast
  show ?thesis
    using h g first second by blast
qed

text \<open>
  C9 as stated fails where the raw similarity is not positive, and for a small \<open>\<lambda>\<close>.
  With opposite vectors for a and b, the entry a scores \<open>-1\<close> for the query b right
  after \<^verbatim>\<open>append\<close> and minus the \<^verbatim>\<open>float32\<close> value of \<open>exp(-1)\<close>, which is higher,
  after five steps at \<open>\<lambda> = 0.2\<close>. With an embedder that returns the zero vector, the same
  text scores 0 before and after. And with \<open>\<lambda> = 10^-9\<close> the weight at age 5 is the
  \<^verbatim>\<open>float32\<close> nearest to \<open>exp(-5 10^-9)\<close>, which is 1: hello scores 1 for the query
  hello before and after the five steps.
\<close>

theorem hd_sim_not_lower_after_steps:
  "hd_sim embed_sign hd_sign ''b'' (Rate (1 / 5)) = Inr [- 1]
   \<and> hd_sim embed_sign (hd_run embed_sign hd_sign (replicate 5 Step)) ''b'' (Rate (1 / 5))
       = Inr [- f32 (exp (- 1))]
   \<and> \<not> (- f32 (exp (- 1)) < - 1)
   \<and> hd_sim embed_zero hd_zero ''hello'' (Rate (1 / 5)) = Inr [0]
   \<and> hd_sim embed_zero (hd_run embed_zero hd_zero (replicate 5 Step)) ''hello'' (Rate (1 / 5))
       = Inr [0]
   \<and> hd_sim embed_ab hd_hello ''hello'' (Rate (1 / 10 ^ 9)) = Inr [1]
   \<and> hd_sim embed_ab (hd_run embed_ab hd_hello (replicate 5 Step)) ''hello'' (Rate (1 / 10 ^ 9))
       = Inr [1]"
proof -
  have le: "f32 (exp (- 1)) \<le> 1" using weight_fifth_five_le by simp
  have sign: "hd_sim embed_sign (hd_run embed_sign hd_sign (replicate 5 Step)) ''b''
      (Rate (1 / 5)) = Inr [- f32 (exp (- 1))]"
    unfolding hd_five_steps
    by (simp add: hd_sign_eq sim_eval embed_sign_def weight_fifth_five f32_minus)
  have zero: "hd_sim embed_zero (hd_run embed_zero hd_zero (replicate 5 Step)) ''hello''
      (Rate (1 / 5)) = Inr [0]"
    unfolding hd_five_steps by (simp add: hd_zero_eq sim_eval embed_zero_def)
  have tiny: "hd_sim embed_ab (hd_run embed_ab hd_hello (replicate 5 Step)) ''hello''
      (Rate (1 / 10 ^ 9)) = Inr [1]"
    unfolding hd_five_steps
    by (simp add: hd_hello_eq sim_eval embed_ab_def weight_tiny_five del: power_numeral)
  show ?thesis
    using le by (simp only: hd_sign_sim hd_zero_sim hd_hello_sim sign zero tiny) simp
qed

section \<open>Ranking by top-k\<close>

lemma map_err_props:
  assumes "map_err f xs = Inr ys"
  shows "length ys = length xs \<and> (\<forall>r < length xs. f (xs ! r) = Inr (ys ! r))"
  using assms
proof (induction xs arbitrary: ys)
  case Nil
  then show ?case by simp
next
  case (Cons x xs)
  then obtain y ys' where y: "f x = Inr y" "map_err f xs = Inr ys'" "ys = y # ys'"
    by (auto split: sum.splits)
  from Cons.IH [OF y(2)] y(1,3) show ?case
    by (auto simp: nth_Cons split: nat.splits)
qed

lemma map_err_returns:
  assumes "\<forall>x \<in> set xs. \<exists>y. f x = Inr y"
  shows "\<exists>ys. map_err f xs = Inr ys"
  using assms by (induction xs) auto

lemma nonzero_props:
  "sorted_wrt (<) (nonzero sel)" "\<forall>i \<in> set (nonzero sel). i < length sel"
  by (simp_all add: nonzero_def sorted_wrt_filter)

lemma zi_search_mask_props:
  assumes "zi_search_mask idx groups = Inr (slots, labs)"
  shows "sorted_wrt (<) slots"
    and "\<forall>s \<in> set slots. s < zi_size idx"
    and "labs = map (\<lambda>s. zi_labels idx ! s) slots"
    and "groups = None \<longrightarrow> slots = [0 ..< zi_size idx]"
proof -
  show "sorted_wrt (<) slots"
    using assms nonzero_props(1)
    by (auto simp: zi_search_mask_def Let_def split: option.splits sum.splits if_splits)
  show "\<forall>s \<in> set slots. s < zi_size idx"
    using assms nonzero_props(2)
    by (fastforce simp: zi_search_mask_def Let_def split: option.splits sum.splits if_splits)
  show "labs = map (\<lambda>s. zi_labels idx ! s) slots"
    using assms
    by (auto simp: zi_search_mask_def Let_def zi_size_def map_nth
             split: option.splits sum.splits if_splits)
  show "groups = None \<longrightarrow> slots = [0 ..< zi_size idx]"
    using assms by (auto simp: zi_search_mask_def Let_def)
qed


lemma qe_similarity_props:
  assumes "qe_similarity q v slots = Inr sims"
  shows "sims = map (\<lambda>s. dot v (qe_raw q ! s)) slots"
  using assms
  by (auto simp: qe_similarity_def index_get_def split: if_splits sum.splits)

lemma zi_search_unfold:
  assumes "zi_search topk idx vecs k groups = Inr (klab, kval)"
  obtains slots labs sims tops where
    "zi_search_mask idx groups = Inr (slots, labs)"
    "map_err (\<lambda>v. qe_similarity (zi_values idx) v slots) vecs = Inr sims"
    "map_err (\<lambda>row. topk row (min k (int (zi_size idx)))) sims = Inr tops"
    "klab = map (\<lambda>(vals, indices). map (\<lambda>i. labs ! i) indices) tops"
    "kval = map fst tops"
    "0 \<le> min k (int (zi_size idx))" "min k (int (zi_size idx)) \<le> int (length slots)"
  using assms
  by (auto simp: zi_search_def Let_def split: sum.splits prod.splits if_splits)

lemma zi_search_returns:
  assumes tk: "topk_contract topk" and k: "0 \<le> k"
    and dims: "\<forall>v \<in> set vecs. length v = qe_dims (zi_values idx)"
    and cap: "zi_size idx \<le> qe_size (zi_values idx)"
  shows "\<exists>klab kval. zi_search topk idx vecs k None = Inr (klab, kval)"
proof -
  define num where "num = zi_size idx"
  define k1 where "k1 = min k (int num)"
  have mask: "zi_search_mask idx None = Inr ([0 ..< num], zi_labels idx)"
    by (simp add: zi_search_mask_def num_def)
  have get: "index_get (qe_raw (zi_values idx)) [0 ..< num]
      = Inr (map (\<lambda>i. qe_raw (zi_values idx) ! i) [0 ..< num])"
    using cap by (auto simp: index_get_def list_ex_iff num_def qe_size_def)
  have row: "qe_similarity (zi_values idx) v [0 ..< num]
      = Inr (map (dot v) (map (\<lambda>i. qe_raw (zi_values idx) ! i) [0 ..< num]))"
    if "v \<in> set vecs" for v
    using that dims by (simp add: qe_similarity_def get)
  then obtain sims where sims:
    "map_err (\<lambda>v. qe_similarity (zi_values idx) v [0 ..< num]) vecs = Inr sims"
    using map_err_returns [of vecs "\<lambda>v. qe_similarity (zi_values idx) v [0 ..< num]"] by auto
  have len_row: "length s = num" if "s \<in> set sims" for s
  proof -
    from that obtain r where r: "r < length sims" "s = sims ! r"
      by (auto simp: in_set_conv_nth)
    have "length sims = length vecs"
      and "qe_similarity (zi_values idx) (vecs ! r) [0 ..< num] = Inr (sims ! r)"
      using map_err_props [OF sims] r(1) by auto
    moreover have "vecs ! r \<in> set vecs" using r(1) \<open>length sims = length vecs\<close> by simp
    ultimately have "sims ! r = map (dot (vecs ! r)) (map (\<lambda>i. qe_raw (zi_values idx) ! i) [0 ..< num])"
      using row [of "vecs ! r"] by simp
    then show ?thesis using r(2) by simp
  qed
  have k1: "0 \<le> k1" "k1 \<le> int num" using k by (simp_all add: k1_def)
  have "\<exists>y. topk s k1 = Inr y" if "s \<in> set sims" for s
  proof -
    have "k1 \<le> int (length s)" using k1(2) len_row [OF that] by simp
    from topk_contract_ok [OF tk k1(1) this] show ?thesis by blast
  qed
  then obtain tops where tops: "map_err (\<lambda>row. topk row k1) sims = Inr tops"
    using map_err_returns [of sims "\<lambda>row. topk row k1"] by auto
  show ?thesis
    using mask sims tops k1 by (simp add: zi_search_def Let_def num_def [symmetric] k1_def [symmetric])
qed

text \<open>
  C6, as the code has it, for every top-k kernel within the contract. With no groups
  filter, a non-negative \<open>k\<close>, queries of the index's dimension and the labels within the
  capacity, \<^verbatim>\<open>search\<close> returns. When it returns, it returns one row per query, and row
  \<open>r\<close> lists exactly \<open>min(k, size())\<close> distinct slots \<open>ss\<close> of the mask (all occupied
  slots, or those the groups filter selects): the labels are the labels of these slots and
  the scores their dot products with the query, in descending order, and no slot of the
  mask that is not returned scores higher than a slot that is. Which of several slots of
  equal score is returned, and in which order, is up to the kernel. Nothing is dropped by
  score: \<^verbatim>\<open>search\<close> has no cutoff.
\<close>

theorem zi_search_ranking:
  "(topk_contract topk \<and> 0 \<le> k \<and> (\<forall>v \<in> set vecs. length v = qe_dims (zi_values idx)) \<and>
    zi_size idx \<le> qe_size (zi_values idx)
    \<longrightarrow> (\<exists>klab kval. zi_search topk idx vecs k None = Inr (klab, kval))) \<and>
   (topk_contract topk \<and> zi_search topk idx vecs k groups = Inr (klab, kval) \<and> r < length vecs
    \<longrightarrow>
     length klab = length vecs \<and> length kval = length vecs \<and>
     (\<exists>slots labs ss.
        zi_search_mask idx groups = Inr (slots, labs) \<and>
        (groups = None \<longrightarrow> slots = [0 ..< zi_size idx]) \<and>
        set ss \<subseteq> set slots \<and> distinct ss \<and>
        length ss = nat (min k (int (zi_size idx))) \<and>
        klab ! r = map (\<lambda>s. zi_labels idx ! s) ss \<and>
        kval ! r = map (\<lambda>s. dot (vecs ! r) (qe_raw (zi_values idx) ! s)) ss \<and>
        sorted_wrt (\<ge>) (kval ! r) \<and>
        (\<forall>t \<in> set slots - set ss. \<forall>s \<in> set ss.
           dot (vecs ! r) (qe_raw (zi_values idx) ! t)
             \<le> dot (vecs ! r) (qe_raw (zi_values idx) ! s))))"
proof (rule conjI)
  show "topk_contract topk \<and> 0 \<le> k \<and> (\<forall>v \<in> set vecs. length v = qe_dims (zi_values idx)) \<and>
    zi_size idx \<le> qe_size (zi_values idx)
    \<longrightarrow> (\<exists>klab kval. zi_search topk idx vecs k None = Inr (klab, kval))"
    using zi_search_returns by blast
next
  have main: "length klab = length vecs \<and> length kval = length vecs \<and>
     (\<exists>slots labs ss.
        zi_search_mask idx groups = Inr (slots, labs) \<and>
        (groups = None \<longrightarrow> slots = [0 ..< zi_size idx]) \<and>
        set ss \<subseteq> set slots \<and> distinct ss \<and>
        length ss = nat (min k (int (zi_size idx))) \<and>
        klab ! r = map (\<lambda>s. zi_labels idx ! s) ss \<and>
        kval ! r = map (\<lambda>s. dot (vecs ! r) (qe_raw (zi_values idx) ! s)) ss \<and>
        sorted_wrt (\<ge>) (kval ! r) \<and>
        (\<forall>t \<in> set slots - set ss. \<forall>s \<in> set ss.
           dot (vecs ! r) (qe_raw (zi_values idx) ! t)
             \<le> dot (vecs ! r) (qe_raw (zi_values idx) ! s)))"
    if a: "topk_contract topk \<and> zi_search topk idx vecs k groups = Inr (klab, kval)
      \<and> r < length vecs"
  proof -
  define score where "score = (\<lambda>s. dot (vecs ! r) (qe_raw (zi_values idx) ! s))"
  define k1 where "k1 = min k (int (zi_size idx))"
  from a obtain slots labs sims tops where
    mask: "zi_search_mask idx groups = Inr (slots, labs)"
    and sims: "map_err (\<lambda>v. qe_similarity (zi_values idx) v slots) vecs = Inr sims"
    and tops: "map_err (\<lambda>row. topk row k1) sims = Inr tops"
    and klab: "klab = map (\<lambda>(vals, indices). map (\<lambda>i. labs ! i) indices) tops"
    and kval: "kval = map fst tops"
    and k1: "0 \<le> k1" "k1 \<le> int (length slots)"
    unfolding k1_def by (blast elim: zi_search_unfold)
  have r: "r < length vecs" and tk: "topk_contract topk" using a by simp_all
  have len_sims: "length sims = length vecs"
    and sim_r: "qe_similarity (zi_values idx) (vecs ! r) slots = Inr (sims ! r)"
    using map_err_props [OF sims] r by auto
  have len_tops: "length tops = length sims"
    and top_r: "topk (sims ! r) k1 = Inr (tops ! r)"
    using map_err_props [OF tops] r len_sims by auto
  obtain vals indices where tr: "tops ! r = (vals, indices)"
    by (cases "tops ! r")
  have row: "sims ! r = map score slots"
    using qe_similarity_props [OF sim_r] by (simp add: score_def)
  have "topk_ok (sims ! r) (nat k1) (vals, indices)"
    using topk_contract_ok [OF tk k1(1), of "sims ! r"] k1(2) top_r tr row by auto
  note tp = topk_ok_props [OF this]
  note mk = zi_search_mask_props [OF mask]
  have inb: "\<forall>p \<in> set indices. p < length slots"
    using tp(3) row by simp
  have slots_dist: "distinct slots"
    using mk(1) by (simp add: strict_sorted_iff)
  define ss where "ss = map (\<lambda>p. slots ! p) indices"
  have pos: "sims ! r ! p = score (slots ! p)" if "p < length slots" for p
    using that row by simp
  have c1: "set ss \<subseteq> set slots"
    using inb by (auto simp: ss_def)
  have c2: "distinct ss"
    unfolding ss_def distinct_map
    using tp(2) inb inj_on_nth [OF slots_dist, of "set indices"] by simp
  have c3: "length ss = nat k1"
    using tp(1) by (simp add: ss_def)
  have c4: "klab ! r = map (\<lambda>s. zi_labels idx ! s) ss"
    using r len_sims len_tops tr inb mk(3) by (simp add: klab ss_def)
  have c5: "kval ! r = map score ss"
    using r len_sims len_tops tr tp(4) inb by (simp add: kval ss_def pos)
  have c6: "sorted_wrt (\<ge>) (kval ! r)"
    using r len_sims len_tops tr tp(5) by (simp add: kval)
  have c8: "\<forall>t \<in> set slots - set ss. \<forall>s \<in> set ss. score t \<le> score s"
  proof (intro ballI)
    fix t s
    assume t: "t \<in> set slots - set ss" and s: "s \<in> set ss"
    from t obtain q where q: "q < length slots" "t = slots ! q"
      by (auto simp: in_set_conv_nth)
    from s obtain p where p: "p \<in> set indices" "s = slots ! p"
      by (auto simp: ss_def)
    have "q \<notin> set indices" using t q by (auto simp: ss_def)
    moreover have "q < length (sims ! r)" using q row by simp
    ultimately have "sims ! r ! q \<le> sims ! r ! p"
      using tp(6) p(1) by blast
    then show "score t \<le> score s"
      using p q inb by (simp add: pos)
  qed
  have lens: "length klab = length vecs \<and> length kval = length vecs"
    using len_sims len_tops by (simp add: klab kval)
  show "length klab = length vecs \<and> length kval = length vecs \<and>
     (\<exists>slots labs ss.
        zi_search_mask idx groups = Inr (slots, labs) \<and>
        (groups = None \<longrightarrow> slots = [0 ..< zi_size idx]) \<and>
        set ss \<subseteq> set slots \<and> distinct ss \<and>
        length ss = nat (min k (int (zi_size idx))) \<and>
        klab ! r = map (\<lambda>s. zi_labels idx ! s) ss \<and>
        kval ! r = map (\<lambda>s. dot (vecs ! r) (qe_raw (zi_values idx) ! s)) ss \<and>
        sorted_wrt (\<ge>) (kval ! r) \<and>
        (\<forall>t \<in> set slots - set ss. \<forall>s \<in> set ss.
           dot (vecs ! r) (qe_raw (zi_values idx) ! t)
             \<le> dot (vecs ! r) (qe_raw (zi_values idx) ! s)))"
    using lens mask mk(4) c1 c2 c3 c4 c5 c6 c8
    unfolding score_def k1_def by blast
  qed
  then show "topk_contract topk \<and> zi_search topk idx vecs k groups = Inr (klab, kval)
      \<and> r < length vecs
    \<longrightarrow>
     length klab = length vecs \<and> length kval = length vecs \<and>
     (\<exists>slots labs ss.
        zi_search_mask idx groups = Inr (slots, labs) \<and>
        (groups = None \<longrightarrow> slots = [0 ..< zi_size idx]) \<and>
        set ss \<subseteq> set slots \<and> distinct ss \<and>
        length ss = nat (min k (int (zi_size idx))) \<and>
        klab ! r = map (\<lambda>s. zi_labels idx ! s) ss \<and>
        kval ! r = map (\<lambda>s. dot (vecs ! r) (qe_raw (zi_values idx) ! s)) ss \<and>
        sorted_wrt (\<ge>) (kval ! r) \<and>
        (\<forall>t \<in> set slots - set ss. \<forall>s \<in> set ss.
           dot (vecs ! r) (qe_raw (zi_values idx) ! t)
             \<le> dot (vecs ! r) (qe_raw (zi_values idx) ! s)))"
    by (rule impI)
qed

lemmas search_eval = zi_search_def zi_search1_def zi_search_mask_def nonzero_def
  qe_similarity_def index_get_def dot_def topk_by_def lowest_first_def from_two_def
  zi_size_def upt_conv_Cons

lemma zi_abc_search:
  "zi_search (topk_by lowest_first) zi_abc [[1, 1]] 2 (Some (One ''g''))
     = Inr ([[''c'', ''a'']], [[2, 1]])"
  by (simp add: zi_abc_eq search_eval)

lemma zi_abc_search_plain:
  "zi_search (topk_by lowest_first) zi_abc [[1, 1]] 2 None = Inr ([[''c'', ''a'']], [[2, 1]])"
  by (simp add: zi_abc_eq search_eval)

text \<open>
  C6 at the index holding a, b, c, searched for the query \<open>[1,1]\<close> and \<open>k = 2\<close> with
  the kernel that takes the lowest position first, without a filter and with the groups
  filter g (the group of all three labels): the scores are 1, 1, 2, so c comes first,
  and a second.
\<close>

theorem zi_search_ranking_witness:
  "(topk_contract (topk_by lowest_first) \<and> (0 :: int) \<le> 2 \<and>
    length [1, 1 :: real] = qe_dims (zi_values zi_abc) \<and>
    zi_size zi_abc \<le> qe_size (zi_values zi_abc))
   \<and> (\<exists>klab kval. zi_search (topk_by lowest_first) zi_abc [[1, 1]] 2 None = Inr (klab, kval))
   \<and> (zi_search (topk_by lowest_first) zi_abc [[1, 1]] 2 (Some (One ''g''))
        = Inr ([[''c'', ''a'']], [[2, 1]])
      \<and> 0 < length [[1, 1 :: real]])
   \<and> (\<exists>slots labs ss.
        zi_search_mask zi_abc (Some (One ''g'')) = Inr (slots, labs) \<and>
        set ss \<subseteq> set slots \<and> distinct ss \<and>
        length ss = nat (min 2 (int (zi_size zi_abc))) \<and>
        [[''c'', ''a'']] ! 0 = map (\<lambda>s. zi_labels zi_abc ! s) ss \<and>
        [[2, 1]] ! 0 = map (\<lambda>s. dot ([[1, 1]] ! 0) (qe_raw (zi_values zi_abc) ! s)) ss \<and>
        sorted_wrt (\<ge>) ([[2, 1 :: real]] ! 0) \<and>
        (\<forall>t \<in> set slots - set ss. \<forall>s \<in> set ss.
           dot ([[1, 1]] ! 0) (qe_raw (zi_values zi_abc) ! t)
             \<le> dot ([[1, 1]] ! 0) (qe_raw (zi_values zi_abc) ! s)))"
proof -
  have g: "topk_contract (topk_by lowest_first) \<and> (0 :: int) \<le> 2 \<and>
    (\<forall>v \<in> set [[1, 1 :: real]]. length v = qe_dims (zi_values zi_abc)) \<and>
    zi_size zi_abc \<le> qe_size (zi_values zi_abc)"
    using lowest_first_contract by (simp add: zi_abc_eq zi_size_def qe_size_def)
  have h: "topk_contract (topk_by lowest_first)
    \<and> zi_search (topk_by lowest_first) zi_abc [[1, 1]] 2 (Some (One ''g''))
        = Inr ([[''c'', ''a'']], [[2, 1]])
    \<and> 0 < length [[1, 1 :: real]]"
    using zi_abc_search lowest_first_contract by simp
  have first: "\<exists>klab kval. zi_search (topk_by lowest_first) zi_abc [[1, 1]] 2 None
      = Inr (klab, kval)"
    using zi_search_ranking [of "topk_by lowest_first" 2 "[[1, 1]]" zi_abc] g by blast
  have g': "length [1, 1 :: real] = qe_dims (zi_values zi_abc)"
    by (simp add: zi_abc_eq)
  have second: "\<exists>slots labs ss.
        zi_search_mask zi_abc (Some (One ''g'')) = Inr (slots, labs) \<and>
        set ss \<subseteq> set slots \<and> distinct ss \<and>
        length ss = nat (min 2 (int (zi_size zi_abc))) \<and>
        [[''c'', ''a'']] ! 0 = map (\<lambda>s. zi_labels zi_abc ! s) ss \<and>
        [[2, 1]] ! 0 = map (\<lambda>s. dot ([[1, 1]] ! 0) (qe_raw (zi_values zi_abc) ! s)) ss \<and>
        sorted_wrt (\<ge>) ([[2, 1 :: real]] ! 0) \<and>
        (\<forall>t \<in> set slots - set ss. \<forall>s \<in> set ss.
           dot ([[1, 1]] ! 0) (qe_raw (zi_values zi_abc) ! t)
             \<le> dot ([[1, 1]] ! 0) (qe_raw (zi_values zi_abc) ! s))"
    using zi_search_ranking [of "topk_by lowest_first" 2 "[[1, 1]]" zi_abc
            "Some (One ''g'')" "[[''c'', ''a'']]" "[[2, 1]]" 0] h
    by blast
  show ?thesis
    using g g' h first second by blast
qed

lemma zi_same_eq:
  "zi_same = \<lparr>zi_labels = [''a'', ''b'', ''c'', ''d''],
              zi_labels_set = {''a'', ''b'', ''c'', ''d''}, zi_grpids = [(''g'', 0)],
              zi_values = \<lparr>qe_dims = 2, qe_raw = [[1, 0], [1, 0], [1, 0], [1, 0]]\<rparr>,
              zi_groups = [0, 0, 0, 0]\<rparr>"
  by (simp add: zi_same_def zi_eval next_power_of_2_numerals)

text \<open>
  C6 as stated fails on the cutoff and on the ties. \<^verbatim>\<open>search\<close> of ziggy/index.py
  takes no cutoff and filters nothing: in the spec's scenario (x and y with the unit
  vectors, query \<open>[1,0]\<close>), \<open>k = 1\<close> returns x with score 1, and \<open>k = 2\<close> also returns
  y with score 0, which is not above the cutoff 0. And \<^verbatim>\<open>search\<close> adds no tie-break of
  its own to \<^verbatim>\<open>topk\<close>: on the index whose four labels all score 1, the result of
  \<^verbatim>\<open>topk\<close> that names position 2 is within the contract, and with a kernel that
  returns it \<^verbatim>\<open>search\<close> returns c for \<open>k = 1\<close> and the order c, d, a, b for \<open>k = 4\<close>.
\<close>

theorem zi_search_cutoff_and_ties:
  "zi_search1 (topk_by lowest_first) zi_xy [1, 0] 1 None = Inr ([''x''], [1])
   \<and> zi_search1 (topk_by lowest_first) zi_xy [1, 0] 2 None = Inr ([''x'', ''y''], [1, 0])
   \<and> [1, 0] ! 1 \<le> (0 :: real)
   \<and> zi_simil zi_same [1, 0] = Inr [1, 1, 1, 1]
   \<and> topk_ok [1, 1, 1, 1] 1 ([1], [2])
   \<and> topk_by from_two [1, 1, 1, 1] 1 = Inr ([1], [2])
   \<and> zi_search1 (topk_by from_two) zi_same [1, 0] 1 None = Inr ([''c''], [1])
   \<and> zi_search1 (topk_by from_two) zi_same [1, 0] 4 None
       = Inr ([''c'', ''d'', ''a'', ''b''], [1, 1, 1, 1])"
  by (simp add: zi_xy_eq zi_same_eq search_eval zi_simil_def topk_ok_def)

end
